theory Spec2Isabelle
  imports Main "HOL-Library.Word" "HOL-Library.Sublist"
begin

section \<open>Machine integers and failures\<close>

text \<open>
  The writer (package \<open>template\<close>, type \<open>InstanceWriter\<close>) keeps its counters in Go
  \<open>int64\<close> fields and its configuration in Go \<open>int\<close> fields. Both are modelled as
  64-bit words read in two's complement (\<open>int\<close> is 64 bits wide on the platforms the
  library targets), so that \<open>+\<close> and \<open>-\<close> wrap as \<open>atomic.AddInt64\<close> does and the
  comparisons of the source are the signed ones (\<open>\<le>s\<close>, \<open><s\<close>).

  A pointer \<open>*Instance\<close> is a value of type \<open>'a option\<close>: \<open>None\<close> is \<open>nil\<close>.
\<close>

type_synonym int64 = "64 word"
type_synonym goint = "64 word"

datatype fault
  = Panic string  \<comment> \<open>a Go run-time panic or an explicit \<open>panic(...)\<close>\<close>
  | Blocked       \<comment> \<open>the operation cannot return yet: it waits on a channel\<close>

section \<open>The ring buffer\<close>

text \<open>
  Modelled from the spec: the type \<open>InstanceRingBuffer\<close> with \<open>NewInstanceRingBuffer\<close>,
  \<open>Add\<close>, \<open>NextBatch\<close>, \<open>UnprocessedCount\<close> and \<open>Size\<close> is used by the writer but its
  source file is not part of the sources at hand. The specification describes it as
  fixed-capacity circular storage of record references plus a count of unprocessed
  entries: insertion into a full buffer overwrites the oldest unprocessed entry and
  reports it, and \<open>NextBatch(max)\<close> hands out, oldest first, up to \<open>max\<close> unprocessed
  entries as a view into the buffer's own storage and marks them processed.

  The view is a slice of the storage, that is one run of consecutive storage
  positions: it is the list of the positions it covers, and reading it is
  \<open>chunk_read\<close>.
\<close>

record 'a InstanceRingBuffer =
  slots :: "'a option list"   \<comment> \<open>circular storage; its length is the fixed capacity\<close>
  readIdx :: nat              \<comment> \<open>position of the oldest unprocessed entry\<close>
  unprocessed :: nat          \<comment> \<open>entries inserted and not yet handed out\<close>

text \<open>
  Modelled from the spec: \<open>Size()\<close> is the fixed capacity and \<open>UnprocessedCount()\<close> the
  number of items inserted and not yet returned by \<open>NextBatch\<close>.
\<close>

definition Size :: "'a InstanceRingBuffer \<Rightarrow> nat" where
  "Size b = length (slots b)"

definition UnprocessedCount :: "'a InstanceRingBuffer \<Rightarrow> nat" where
  "UnprocessedCount b = unprocessed b"

text \<open>Modelled from the spec: \<open>New(capacity)\<close> fails only on a capacity \<open>\<le> 0\<close>.\<close>

definition NewInstanceRingBuffer :: "int \<Rightarrow> fault + 'a InstanceRingBuffer" where
  "NewInstanceRingBuffer capacity =
     (if capacity \<le> 0 then Inl (Panic ''invalid ring buffer capacity'')
      else Inr \<lparr>slots = replicate (nat capacity) None, readIdx = 0, unprocessed = 0\<rparr>)"

text \<open>
  Modelled from the spec: \<open>Add(item)\<close> inserts one item; on a buffer that already
  holds capacity-many unprocessed items the oldest one is overwritten and the call
  returns true, otherwise it returns false.
\<close>

definition Add :: "'a option \<Rightarrow> 'a InstanceRingBuffer \<Rightarrow> bool \<times> 'a InstanceRingBuffer" where
  "Add inst b =
     (let cap = length (slots b);
          w = (readIdx b + unprocessed b) mod cap
      in if unprocessed b = cap
         then (True, b\<lparr>slots := (slots b)[w := inst], readIdx := (readIdx b + 1) mod cap\<rparr>)
         else (False, b\<lparr>slots := (slots b)[w := inst], unprocessed := unprocessed b + 1\<rparr>))"

text \<open>
  Modelled from the spec: \<open>NextBatch(max)\<close> returns up to \<open>max\<close> of the oldest
  unprocessed items (fewer if fewer are available, empty if none) and marks them
  processed. What it returns is a view into the buffer's own storage, which the writer
  takes as one slice of the backing array; a slice cannot run past the end of the array
  and start again at its beginning, so a batch ends where the storage ends at the
  latest, and the unprocessed entries beyond that point come with the next call.
  \<open>batch_size\<close> is the number of items handed out. The result is the view (its
  storage positions, oldest first) and the buffer.
\<close>

definition batch_size :: "int \<Rightarrow> 'a InstanceRingBuffer \<Rightarrow> nat" where
  "batch_size maxSize b =
     min (nat maxSize) (min (unprocessed b) (length (slots b) - readIdx b))"

definition NextBatch :: "int \<Rightarrow> 'a InstanceRingBuffer \<Rightarrow> nat list \<times> 'a InstanceRingBuffer" where
  "NextBatch maxSize b =
     (let cap = length (slots b);
          n = batch_size maxSize b
      in ([readIdx b ..< readIdx b + n],
          b\<lparr>readIdx := (readIdx b + n) mod cap, unprocessed := unprocessed b - n\<rparr>))"

definition chunk_read :: "'a InstanceRingBuffer \<Rightarrow> nat list \<Rightarrow> 'a option list" where
  "chunk_read b ps = map (\<lambda>p. slots b ! p) ps"

text \<open>The writer's \<open>chunk[i] = nil\<close> through the view.\<close>

definition chunk_clear :: "nat list \<Rightarrow> 'a InstanceRingBuffer \<Rightarrow> 'a InstanceRingBuffer" where
  "chunk_clear ps b = b\<lparr>slots := fold (\<lambda>p s. s[p := None]) ps (slots b)\<rparr>"

text \<open>The unprocessed entries of a buffer, oldest first.\<close>

definition pending :: "'a InstanceRingBuffer \<Rightarrow> 'a option list" where
  "pending b = map (\<lambda>i. slots b ! ((readIdx b + i) mod length (slots b))) [0..<unprocessed b]"

definition rb_wf :: "'a InstanceRingBuffer \<Rightarrow> bool" where
  "rb_wf b \<longleftrightarrow> 0 < length (slots b) \<and> readIdx b < length (slots b) \<and> unprocessed b \<le> length (slots b)"

text \<open>A client's use of a buffer: insertions interleaved with batch extractions.\<close>

datatype 'a rb_op = OpAdd "'a option" | OpNextBatch int

fun rb_run :: "'a rb_op list \<Rightarrow> 'a InstanceRingBuffer \<Rightarrow> 'a option list list \<times> 'a InstanceRingBuffer" where
  "rb_run [] b = ([], b)"
| "rb_run (OpAdd x # ops) b = rb_run ops (snd (Add x b))"
| "rb_run (OpNextBatch m # ops) b =
     (let (ps, b') = NextBatch m b;
          (outs, b'') = rb_run ops b'
      in (chunk_read b' ps # outs, b''))"

fun added :: "'a rb_op list \<Rightarrow> 'a option list" where
  "added [] = []"
| "added (OpAdd x # ops) = x # added ops"
| "added (OpNextBatch m # ops) = added ops"

section \<open>Chunk slices\<close>

text \<open>
  A Go slice \<open>[]*Instance\<close> that starts at the beginning of its backing array: the
  array (its length is the slice's capacity) and the slice's length.
  \<open>make([]*Instance, 0, c)\<close> allocates a zeroed array.
\<close>

record 'a chunk_slice =
  arr :: "'a option list"
  len :: nat

definition make_chunk :: "nat \<Rightarrow> 'a chunk_slice" where
  "make_chunk c = \<lparr>arr = replicate c None, len = 0\<rparr>"

text \<open>The loop \<open>for i := size; i < len(slice); i++ { slice[i] = nil }\<close>.\<close>

function nil_above :: "nat \<Rightarrow> 'a chunk_slice \<Rightarrow> 'a chunk_slice" where
  "nil_above i s = (if i < len s then nil_above (Suc i) (s\<lparr>arr := (arr s)[i := None]\<rparr>) else s)"
  by pat_completeness auto
termination
  by (relation "measure (\<lambda>(i, s). len s - i)") auto

text \<open>
  \<open>slice[:size]\<close> (\<open>sz\<close> below) panics when \<open>size\<close> exceeds the capacity. The result of
  \<open>reslice\<close> shares the backing array.
\<close>

definition reslice :: "nat \<Rightarrow> 'a chunk_slice \<Rightarrow> fault + 'a chunk_slice" where
  "reslice sz s =
     (if length (arr s) < sz then Inl (Panic ''slice bounds out of range'')
      else Inr (s\<lparr>len := sz\<rparr>))"

text \<open>The built-in \<open>copy(dst, src)\<close>: the first \<open>min(len(dst), len(src))\<close> elements.\<close>

definition copy_slice :: "'a chunk_slice \<Rightarrow> 'a option list \<Rightarrow> 'a chunk_slice" where
  "copy_slice dst src =
     (let n = min (len dst) (length src)
      in dst\<lparr>arr := take n src @ drop n (arr dst)\<rparr>)"

definition elems :: "'a chunk_slice \<Rightarrow> 'a option list" where
  "elems s = take (len s) (arr s)"

section \<open>The writer\<close>

datatype chan_state = Open | Closed

text \<open>
  A goroutine launched by \<open>tryToSendChunk\<close>: it calls \<open>SendFunc\<close>, adds to the sent or
  the failed counter, puts its slice back into \<open>chunkSliceCache\<close> and then sends its
  count on \<open>requestDoneCh\<close>. \<open>SendFunc\<close> is taken to read the slice it is given and
  not to write into its backing array.
\<close>

datatype task_phase = InSink | SinkReturned | SliceReturned

record 'a send_task =
  task_chunk :: "'a chunk_slice"
  task_count :: int64
  task_phase :: task_phase

text \<open>
  Where the goroutine spawned by \<open>Start\<close> stands: not spawned, spawned and about to
  enter \<open>run\<close>, in the main loop of \<open>run\<close>, in the loop of \<open>drainInput\<close> after the
  context was cancelled, in \<open>waitForRequests\<close>, or past \<open>close(w.shutdownFlag)\<close>.
\<close>

datatype loop_pc = NotStarted | Spawned | Running | Draining | Waiting | Exited

text \<open>
  The struct \<open>InstanceWriter\<close>. The channels \<open>requestDoneCh\<close> and \<open>chunkSliceCache\<close>
  are their queued contents; \<open>shutdownFlag\<close> is \<open>None\<close> while the field is \<open>nil\<close>.
  \<open>InputChan\<close> and \<open>SendFunc\<close> belong to the environment: what arrives on the one and
  what the other returns are parameters of the steps below. The last three fields are
  not fields of the struct: the goroutines that exist beside it, and how often
  \<open>OverwriteFunc\<close> was called.
\<close>

record 'a InstanceWriter =
  PreprocessFunc :: "('a option \<Rightarrow> bool) option"
  OverwriteFunc :: bool
  MaxBuffered :: goint
  MaxRequests :: goint
  MaxBatchSize :: goint
  shutdownFlag :: "chan_state option"
  buff :: "'a InstanceRingBuffer option"
  requestDoneCh :: "int64 list"
  chunkSliceCache :: "'a chunk_slice list"
  requestsActive :: int64
  totalWaiting :: int64
  TotalReceived :: int64
  TotalFilteredOut :: int64
  TotalInFlight :: int64
  TotalSent :: int64
  TotalFailedToSend :: int64
  TotalOverwritten :: int64
  tasks :: "'a send_task list"
  loop :: loop_pc
  overwriteCalls :: nat

definition DefaultInstanceMaxBuffered :: goint where
  "DefaultInstanceMaxBuffered = 10000"

definition DefaultInstanceMaxRequests :: goint where
  "DefaultInstanceMaxRequests = 10"

definition DefaultInstanceMaxBatchSize :: goint where
  "DefaultInstanceMaxBatchSize = 1000"

text \<open>A writer as its user creates it: the configuration set, everything else zero.\<close>

definition new_writer ::
  "('a option \<Rightarrow> bool) option \<Rightarrow> bool \<Rightarrow> goint \<Rightarrow> goint \<Rightarrow> goint \<Rightarrow> 'a InstanceWriter" where
  "new_writer pre ow maxBuffered maxRequests maxBatchSize =
     \<lparr>PreprocessFunc = pre, OverwriteFunc = ow,
      MaxBuffered = maxBuffered, MaxRequests = maxRequests, MaxBatchSize = maxBatchSize,
      shutdownFlag = None, buff = None, requestDoneCh = [], chunkSliceCache = [],
      requestsActive = 0, totalWaiting = 0, TotalReceived = 0, TotalFilteredOut = 0,
      TotalInFlight = 0, TotalSent = 0, TotalFailedToSend = 0, TotalOverwritten = 0,
      tasks = [], loop = NotStarted, overwriteCalls = 0\<rparr>"

definition WaitForShutdown :: "'a InstanceWriter \<Rightarrow> fault + unit" where
  "WaitForShutdown w =
     (case shutdownFlag w of
        None \<Rightarrow> Inl (Panic ''should not wait for writer shutdown when not running'')
      | Some Open \<Rightarrow> Inl Blocked
      | Some Closed \<Rightarrow> Inr ())"

text \<open>
  \<open>getChunkSlice\<close>: the receive from \<open>chunkSliceCache\<close> waits while the cache is empty.
\<close>

definition getChunkSlice :: "nat \<Rightarrow> 'a InstanceWriter \<Rightarrow> fault + ('a chunk_slice \<times> 'a InstanceWriter)" where
  "getChunkSlice sz w =
     (case chunkSliceCache w of
        [] \<Rightarrow> Inl Blocked
      | sl # rest \<Rightarrow>
          (case reslice sz (nil_above sz sl) of
             Inl f \<Rightarrow> Inl f
           | Inr s \<Rightarrow> Inr (s, w\<lparr>chunkSliceCache := rest\<rparr>)))"

definition tryToSendChunk :: "'a InstanceWriter \<Rightarrow> fault + 'a InstanceWriter" where
  "tryToSendChunk w =
     (case buff w of
        None \<Rightarrow> Inl (Panic ''nil pointer dereference'')
      | Some b \<Rightarrow>
          let totalUnprocessed = UnprocessedCount b in
          if MaxRequests w \<le>s requestsActive w
          then Inr (w\<lparr>totalWaiting := of_nat totalUnprocessed\<rparr>)
          else
            let (chunk, b1) = NextBatch (sint (MaxBatchSize w)) b;
                count = (of_nat (length chunk) :: int64)
            in if count = 0 then Inr (w\<lparr>buff := Some b1\<rparr>)
               else
                 let w1 = w\<lparr>buff := Some b1,
                            TotalInFlight := TotalInFlight w + count,
                            requestsActive := requestsActive w + 1\<rparr>
                 in case getChunkSlice (length chunk) w1 of
                      Inl f \<Rightarrow> Inl f
                    | Inr (chunkCopy, w2) \<Rightarrow>
                        let filled = copy_slice chunkCopy (chunk_read b1 chunk);
                            b2 = chunk_clear chunk b1;
                            t = \<lparr>task_chunk = filled, task_count = count, task_phase = InSink\<rparr>
                        in Inr (w2\<lparr>buff := Some b2,
                                    tasks := tasks w2 @ [t],
                                    totalWaiting := of_nat (UnprocessedCount b2)\<rparr>))"

definition handleRequestDone :: "int64 \<Rightarrow> 'a InstanceWriter \<Rightarrow> fault + 'a InstanceWriter" where
  "handleRequestDone count w =
     (let w1 = w\<lparr>requestsActive := requestsActive w - 1,
                 TotalInFlight := TotalInFlight w - count\<rparr>
      in if 0 <s totalWaiting w1 then tryToSendChunk w1 else Inr w1)"

text \<open>
  The \<open>select\<close> with a \<open>default\<close> branch inside \<open>processInput\<close>: one completion is
  handled when one is queued.
\<close>

definition pollRequestDone :: "'a InstanceWriter \<Rightarrow> fault + 'a InstanceWriter" where
  "pollRequestDone w =
     (case requestDoneCh w of
        [] \<Rightarrow> Inr w
      | count # rest \<Rightarrow> handleRequestDone count (w\<lparr>requestDoneCh := rest\<rparr>))"

text \<open>The body of the loop of \<open>processInput\<close>, for one instance.\<close>

definition processOne :: "'a option \<Rightarrow> 'a InstanceWriter \<Rightarrow> fault + 'a InstanceWriter" where
  "processOne inst w =
     (if (case PreprocessFunc w of None \<Rightarrow> False | Some f \<Rightarrow> \<not> f inst)
      then Inr (w\<lparr>TotalFilteredOut := TotalFilteredOut w + 1\<rparr>)
      else
        case buff w of
          None \<Rightarrow> Inl (Panic ''nil pointer dereference'')
        | Some b \<Rightarrow>
            let (overwrote, b1) = Add inst b;
                w1 = w\<lparr>buff := Some b1\<rparr>;
                w2 = (if overwrote
                      then w1\<lparr>TotalOverwritten := TotalOverwritten w1 + 1,
                               overwriteCalls := overwriteCalls w1 + (if OverwriteFunc w1 then 1 else 0)\<rparr>
                      else w1)
            in case pollRequestDone w2 of
                 Inl f \<Rightarrow> Inl f
               | Inr w3 \<Rightarrow>
                   (case buff w3 of
                      None \<Rightarrow> Inl (Panic ''nil pointer dereference'')
                    | Some b3 \<Rightarrow>
                        if sint (MaxBatchSize w3) \<le> int (UnprocessedCount b3)
                        then tryToSendChunk w3 else Inr w3))"

fun processLoop :: "'a option list \<Rightarrow> 'a InstanceWriter \<Rightarrow> fault + 'a InstanceWriter" where
  "processLoop [] w = Inr w"
| "processLoop (inst # insts) w =
     (case processOne inst w of Inl f \<Rightarrow> Inl f | Inr w' \<Rightarrow> processLoop insts w')"

definition processInput :: "'a option list \<Rightarrow> 'a InstanceWriter \<Rightarrow> fault + 'a InstanceWriter" where
  "processInput insts w =
     processLoop insts (w\<lparr>TotalReceived := TotalReceived w + of_nat (length insts)\<rparr>)"

definition Start :: "'a InstanceWriter \<Rightarrow> 'a InstanceWriter" where
  "Start w = w\<lparr>shutdownFlag := Some Open, loop := Spawned\<rparr>"

text \<open>
  The head of \<open>run\<close>, up to the main loop: the defaults, the ring buffer, the primed
  slice cache and the completion channel. \<open>make\<close> panics on a negative size.
\<close>

definition apply_defaults :: "'a InstanceWriter \<Rightarrow> 'a InstanceWriter" where
  "apply_defaults w =
     (let w1 = (if MaxBuffered w = 0 then w\<lparr>MaxBuffered := DefaultInstanceMaxBuffered\<rparr> else w);
          w2 = (if MaxRequests w1 = 0 then w1\<lparr>MaxRequests := DefaultInstanceMaxRequests\<rparr> else w1)
      in if MaxBatchSize w2 = 0 then w2\<lparr>MaxBatchSize := DefaultInstanceMaxBatchSize\<rparr> else w2)"

definition run_init :: "'a InstanceWriter \<Rightarrow> fault + 'a InstanceWriter" where
  "run_init w0 =
     (let w = apply_defaults w0
      in case NewInstanceRingBuffer (sint (MaxBuffered w)) of
           Inl f \<Rightarrow> Inl f
         | Inr b \<Rightarrow>
             if sint (MaxRequests w) < 0 then Inl (Panic ''makechan: size out of range'')
             else if sint (MaxBatchSize w) < 0 then Inl (Panic ''makeslice: cap out of range'')
             else Inr (w\<lparr>buff := Some b,
                         chunkSliceCache :=
                           replicate (nat (sint (MaxRequests w))) (make_chunk (nat (sint (MaxBatchSize w)))),
                         requestDoneCh := []\<rparr>))"

text \<open>
  The three moves of a send goroutine. \<open>err\<close> says whether \<open>SendFunc\<close> returned an
  error. A send on a full channel waits.
\<close>

definition sink_returns :: "nat \<Rightarrow> bool \<Rightarrow> 'a InstanceWriter \<Rightarrow> 'a InstanceWriter" where
  "sink_returns i err w =
     (let t = tasks w ! i;
          w1 = (if err then w\<lparr>TotalFailedToSend := TotalFailedToSend w + task_count t\<rparr>
                else w\<lparr>TotalSent := TotalSent w + task_count t\<rparr>)
      in w1\<lparr>tasks := (tasks w)[i := t\<lparr>task_phase := SinkReturned\<rparr>]\<rparr>)"

definition return_slice :: "nat \<Rightarrow> 'a InstanceWriter \<Rightarrow> fault + 'a InstanceWriter" where
  "return_slice i w =
     (let t = tasks w ! i
      in if int (length (chunkSliceCache w)) < sint (MaxRequests w)
         then Inr (w\<lparr>chunkSliceCache := chunkSliceCache w @ [task_chunk t],
                     tasks := (tasks w)[i := t\<lparr>task_phase := SliceReturned\<rparr>]\<rparr>)
         else Inl Blocked)"

definition signal_done :: "nat \<Rightarrow> 'a InstanceWriter \<Rightarrow> fault + 'a InstanceWriter" where
  "signal_done i w =
     (let t = tasks w ! i
      in if int (length (requestDoneCh w)) < sint (MaxRequests w)
         then Inr (w\<lparr>requestDoneCh := requestDoneCh w @ [task_count t],
                     tasks := take i (tasks w) @ drop (Suc i) (tasks w)\<rparr>)
         else Inl Blocked)"

text \<open>
  One atomic move of the system: of the coordinating goroutine (\<open>Start\<close>, the head of
  \<open>run\<close>, the branches of its loops) or of a send goroutine, in any interleaving.
  \<open>processInput\<close> is taken apart into the addition to \<open>TotalReceived\<close> and one move
  per instance, so that send goroutines may move in between.
\<close>

inductive wstep :: "'a InstanceWriter \<Rightarrow> 'a InstanceWriter \<Rightarrow> bool" where
  st_start: "loop w = NotStarted \<Longrightarrow> wstep w (Start w)"
| st_init: "loop w = Spawned \<Longrightarrow> run_init w = Inr w' \<Longrightarrow> wstep w (w'\<lparr>loop := Running\<rparr>)"
| st_receive: "loop w = Running \<or> loop w = Draining \<Longrightarrow>
     wstep w (w\<lparr>TotalReceived := TotalReceived w + of_nat n\<rparr>)"
| st_instance: "loop w = Running \<or> loop w = Draining \<Longrightarrow> processOne inst w = Inr w' \<Longrightarrow> wstep w w'"
| st_done: "loop w = Running \<or> (loop w = Waiting \<and> 0 <s requestsActive w) \<Longrightarrow>
     requestDoneCh w = count # rest \<Longrightarrow>
     handleRequestDone count (w\<lparr>requestDoneCh := rest\<rparr>) = Inr w' \<Longrightarrow> wstep w w'"
| st_flush: "loop w = Running \<Longrightarrow> tryToSendChunk w = Inr w' \<Longrightarrow> wstep w w'"
| st_cancel: "loop w = Running \<Longrightarrow> wstep w (w\<lparr>loop := Draining\<rparr>)"
| st_drained: "loop w = Draining \<Longrightarrow> tryToSendChunk w = Inr w' \<Longrightarrow> wstep w (w'\<lparr>loop := Waiting\<rparr>)"
| st_exit: "loop w = Waiting \<Longrightarrow> \<not> 0 <s requestsActive w \<Longrightarrow>
     wstep w (w\<lparr>loop := Exited, shutdownFlag := Some Closed\<rparr>)"
| st_sink: "i < length (tasks w) \<Longrightarrow> task_phase (tasks w ! i) = InSink \<Longrightarrow>
     wstep w (sink_returns i err w)"
| st_slice: "i < length (tasks w) \<Longrightarrow> task_phase (tasks w ! i) = SinkReturned \<Longrightarrow>
     return_slice i w = Inr w' \<Longrightarrow> wstep w w'"
| st_signal: "i < length (tasks w) \<Longrightarrow> task_phase (tasks w ! i) = SliceReturned \<Longrightarrow>
     signal_done i w = Inr w' \<Longrightarrow> wstep w w'"

inductive reachable :: "'a InstanceWriter \<Rightarrow> bool" where
  r_new: "reachable (new_writer pre ow maxBuffered maxRequests maxBatchSize)"
| r_step: "reachable w \<Longrightarrow> wstep w w' \<Longrightarrow> reachable w'"

section \<open>Invariants of the writer\<close>

text \<open>A send goroutine holds its slice until it has put it back into the cache.\<close>

definition holds_slice :: "'a send_task \<Rightarrow> bool" where
  "holds_slice t \<longleftrightarrow> task_phase t \<noteq> SliceReturned"

definition in_sink :: "'a send_task \<Rightarrow> bool" where
  "in_sink t \<longleftrightarrow> task_phase t = InSink"

text \<open>A slice whose backing array holds \<open>nil\<close> from its length on.\<close>

definition chunk_ok :: "'a chunk_slice \<Rightarrow> bool" where
  "chunk_ok s \<longleftrightarrow> len s \<le> length (arr s) \<and> set (drop (len s) (arr s)) \<subseteq> {None}"

text \<open>The writer before \<open>run\<close> has touched it.\<close>

definition fresh :: "'a InstanceWriter \<Rightarrow> bool" where
  "fresh w \<longleftrightarrow> buff w = None \<and> requestDoneCh w = [] \<and> chunkSliceCache w = [] \<and> tasks w = []
     \<and> requestsActive w = 0 \<and> totalWaiting w = 0"

text \<open>What holds of the writer from the head of \<open>run\<close> on.\<close>

definition writer_inv :: "'a InstanceWriter \<Rightarrow> bool" where
  "writer_inv w \<longleftrightarrow>
     (case buff w of
        None \<Rightarrow> False
      | Some b \<Rightarrow> rb_wf b \<and> int (Size b) = sint (MaxBuffered w)
                  \<and> (unprocessed b = 0 \<longrightarrow> totalWaiting w = 0))
     \<and> 0 < sint (MaxRequests w) \<and> 0 < sint (MaxBatchSize w)
     \<and> sint (requestsActive w) = int (length (tasks w)) + int (length (requestDoneCh w))
     \<and> sint (requestsActive w) \<le> sint (MaxRequests w)
     \<and> int (length (chunkSliceCache w)) + int (length (filter holds_slice (tasks w)))
         = sint (MaxRequests w)
     \<and> (\<forall>s \<in> set (chunkSliceCache w) \<union> task_chunk ` set (tasks w).
           int (length (arr s)) = sint (MaxBatchSize w) \<and> chunk_ok s)
     \<and> (\<forall>t \<in> set (tasks w). task_count t = of_nat (len (task_chunk t)))"

definition system_inv :: "'a InstanceWriter \<Rightarrow> bool" where
  "system_inv w \<longleftrightarrow>
     (case loop w of
        NotStarted \<Rightarrow> shutdownFlag w = None \<and> fresh w
      | Spawned \<Rightarrow> shutdownFlag w = Some Open \<and> fresh w
      | Exited \<Rightarrow> shutdownFlag w = Some Closed \<and> writer_inv w
                    \<and> tasks w = [] \<and> requestDoneCh w = []
      | _ \<Rightarrow> shutdownFlag w = Some Open \<and> writer_inv w)"

definition started :: "'a InstanceWriter \<Rightarrow> bool" where
  "started w \<longleftrightarrow> loop w \<noteq> NotStarted \<and> loop w \<noteq> Spawned"

section \<open>Where the instances are\<close>


definition in_hand :: "'a InstanceWriter \<Rightarrow> 'a option list" where
  "in_hand w =
     concat (map (\<lambda>t. elems (task_chunk t)) (tasks w))
     @ (case buff w of None \<Rightarrow> [] | Some b \<Rightarrow> pending b)"

text \<open>
  What the coordinating goroutine's functions leave alone, from a state to a later
  one: the filter, the counters of the input and of the sink's outcomes, and the send
  goroutines there are; and a recorded backlog stays recorded for as long as no send
  is launched.
\<close>

definition coord_frame :: "'a InstanceWriter \<Rightarrow> 'a InstanceWriter \<Rightarrow> bool" where
  "coord_frame w w' \<longleftrightarrow>
     PreprocessFunc w' = PreprocessFunc w \<and> TotalReceived w' = TotalReceived w
     \<and> TotalSent w' = TotalSent w \<and> TotalFailedToSend w' = TotalFailedToSend w
     \<and> length (tasks w) \<le> length (tasks w')
     \<and> (length (tasks w') \<le> length (tasks w) \<and> 0 <s totalWaiting w \<longrightarrow> 0 <s totalWaiting w')"

text \<open>
  A stretch of moves of the system none of which launches a send goroutine: the list
  of send goroutines does not get longer.
\<close>

inductive quiet :: "'a InstanceWriter \<Rightarrow> 'a InstanceWriter \<Rightarrow> bool" where
  q_here: "quiet w w"
| q_move: "quiet w w' \<Longrightarrow> wstep w' w'' \<Longrightarrow> length (tasks w'') \<le> length (tasks w') \<Longrightarrow> quiet w w''"

section \<open>A run of the writer\<close>

text \<open>
  A writer with \<open>MaxBuffered = 8\<close>, \<open>MaxRequests = 1\<close> and \<open>MaxBatchSize = 5\<close> over
  instances that are numbers: created, started, given the instances 1 to 5 (which are
  dispatched as one batch), then 6 to 10 (which have to wait for the one request slot),
  then told that the sink has failed on the first batch.
\<close>

definition demo_new :: "nat InstanceWriter" where
  "demo_new = new_writer None False 8 1 5"

definition demo_idle :: "nat InstanceWriter" where
  "demo_idle =
     \<lparr>PreprocessFunc = None, OverwriteFunc = False,
      MaxBuffered = 8, MaxRequests = 1, MaxBatchSize = 5,
      shutdownFlag = Some Open,
      buff = Some \<lparr>slots = [None, None, None, None, None, None, None, None],
                    readIdx = 0, unprocessed = 0\<rparr>,
      requestDoneCh = [],
      chunkSliceCache = [\<lparr>arr = [None, None, None, None, None], len = 0\<rparr>],
      requestsActive = 0, totalWaiting = 0, TotalReceived = 0, TotalFilteredOut = 0,
      TotalInFlight = 0, TotalSent = 0, TotalFailedToSend = 0, TotalOverwritten = 0,
      tasks = [], loop = Running, overwriteCalls = 0\<rparr>"

definition demo_batch :: "nat send_task" where
  "demo_batch = \<lparr>task_chunk = \<lparr>arr = [Some 1, Some 2, Some 3, Some 4, Some 5], len = 5\<rparr>,
                  task_count = 5, task_phase = InSink\<rparr>"

definition demo_busy :: "nat InstanceWriter" where
  "demo_busy =
     demo_idle\<lparr>buff := Some \<lparr>slots = [None, None, None, None, None, None, None, None],
                              readIdx = 5, unprocessed = 0\<rparr>,
               chunkSliceCache := [], requestsActive := 1,
               TotalReceived := 5, TotalInFlight := 5, tasks := [demo_batch]\<rparr>"

definition demo_backlog :: "nat InstanceWriter" where
  "demo_backlog =
     demo_busy\<lparr>buff := Some \<lparr>slots = [Some 9, Some 10, None, None, None, Some 6, Some 7, Some 8],
                              readIdx = 5, unprocessed = 5\<rparr>,
               totalWaiting := 5, TotalReceived := 10\<rparr>"

definition demo_signalled :: "nat InstanceWriter" where
  "demo_signalled =
     demo_backlog\<lparr>requestDoneCh := [5],
                  chunkSliceCache := [\<lparr>arr = [Some 1, Some 2, Some 3, Some 4, Some 5], len = 5\<rparr>],
                  TotalFailedToSend := 5, tasks := []\<rparr>"

definition demo_exited :: "nat InstanceWriter" where
  "demo_exited = demo_idle\<lparr>loop := Exited, shutdownFlag := Some Closed\<rparr>"

section \<open>Ring buffer: basic facts\<close>

lemma rb_wf_New:
  "NewInstanceRingBuffer c = Inr b \<Longrightarrow> rb_wf b \<and> Size b = nat c \<and> unprocessed b = 0 \<and> pending b = []"
  by (auto simp: NewInstanceRingBuffer_def rb_wf_def Size_def pending_def split: if_splits)

lemma Add_wf: "rb_wf b \<Longrightarrow> rb_wf (snd (Add x b))"
  by (auto simp: Add_def rb_wf_def Let_def)

lemma Add_Size: "Size (snd (Add x b)) = Size b"
  by (simp add: Add_def Size_def Let_def)

lemma NextBatch_wf: "rb_wf b \<Longrightarrow> rb_wf (snd (NextBatch m b))"
  by (auto simp: NextBatch_def rb_wf_def Let_def)

lemma NextBatch_Size: "Size (snd (NextBatch m b)) = Size b"
  by (simp add: NextBatch_def Size_def Let_def)

lemma length_pending: "length (pending b) = unprocessed b"
  by (simp add: pending_def)

text \<open>Moving on by less than the capacity never comes back to the same slot.\<close>

lemma circ_shift_neq:
  fixes r k c :: nat
  assumes "r < c" "0 < k" "k < c"
  shows "(r + k) mod c \<noteq> r"
proof (cases "r + k < c")
  case True
  then show ?thesis using assms by simp
next
  case False
  then have "(r + k) mod c = r + k - c" using assms by (simp add: mod_if)
  then show ?thesis using assms False by simp
qed

lemma pending_Add_full:
  assumes "rb_wf b" "unprocessed b = Size b"
  shows "fst (Add x b) = True" "pending (snd (Add x b)) = tl (pending b) @ [x]"
proof -
  let ?c = "length (slots b)"
  from assms have c: "0 < ?c" "readIdx b < ?c" "unprocessed b = ?c" by (auto simp: rb_wf_def Size_def)
  show "fst (Add x b) = True" using c by (simp add: Add_def Let_def)
  show "pending (snd (Add x b)) = tl (pending b) @ [x]"
  proof (rule nth_equalityI)
    show "length (pending (snd (Add x b))) = length (tl (pending b) @ [x])"
      using c by (simp add: length_pending Add_def Let_def)
  next
    fix i assume "i < length (pending (snd (Add x b)))"
    then have i: "i < ?c" using c by (simp add: length_pending Add_def Let_def)
    have w: "(readIdx b + ?c) mod ?c = readIdx b" using c by simp
    have "((readIdx b + 1) mod ?c + i) mod ?c = ((readIdx b + 1) + i) mod ?c"
      by (rule mod_add_left_eq)
    then have m: "((readIdx b + 1) mod ?c + i) mod ?c = (readIdx b + (i + 1)) mod ?c"
      by (simp only: ac_simps)
    show "pending (snd (Add x b)) ! i = (tl (pending b) @ [x]) ! i"
    proof (cases "i = ?c - 1")
      case True
      then have "(readIdx b + (i + 1)) mod ?c = readIdx b" using c by simp
      then show ?thesis using c i True w m
        by (simp add: pending_def Add_def Let_def nth_append length_pending)
    next
      case False
      then have i2: "i + 1 < ?c" using i by simp
      have ne: "(readIdx b + (i + 1)) mod ?c \<noteq> readIdx b"
        by (rule circ_shift_neq [OF c(2) _ i2]) simp
      have i3: "i < ?c - 1" using i2 by simp
      show ?thesis using c i i2 i3 w m ne
        by (simp add: pending_def Add_def Let_def nth_append nth_tl)
    qed
  qed
qed

lemma pending_Add_room:
  assumes "rb_wf b" "unprocessed b \<noteq> Size b"
  shows "fst (Add x b) = False" "pending (snd (Add x b)) = pending b @ [x]"
proof -
  let ?c = "length (slots b)"
  from assms have c: "0 < ?c" "readIdx b < ?c" "unprocessed b < ?c" by (auto simp: rb_wf_def Size_def)
  show "fst (Add x b) = False" using c by (simp add: Add_def Let_def)
  show "pending (snd (Add x b)) = pending b @ [x]"
  proof (rule nth_equalityI)
    show "length (pending (snd (Add x b))) = length (pending b @ [x])"
      using c by (simp add: length_pending Add_def Let_def)
  next
    fix i assume "i < length (pending (snd (Add x b)))"
    then have i: "i \<le> unprocessed b" using c by (simp add: length_pending Add_def Let_def)
    show "pending (snd (Add x b)) ! i = (pending b @ [x]) ! i"
    proof (cases "i = unprocessed b")
      case True
      then show ?thesis using c
        by (simp add: pending_def Add_def Let_def nth_append del: upt_Suc)
    next
      case False
      then have lt: "i < unprocessed b" using i by simp
      have "(readIdx b + i) mod ?c \<noteq> (readIdx b + unprocessed b) mod ?c"
      proof
        assume e: "(readIdx b + i) mod ?c = (readIdx b + unprocessed b) mod ?c"
        let ?r = "(readIdx b + i) mod ?c"
        have "(?r + (unprocessed b - i)) mod ?c = (readIdx b + i + (unprocessed b - i)) mod ?c"
          by (rule mod_add_left_eq)
        also have "\<dots> = ?r" using lt e by simp
        finally have wr: "(?r + (unprocessed b - i)) mod ?c = ?r" .
        have r: "?r < ?c" using c by simp
        have k: "0 < unprocessed b - i" "unprocessed b - i < ?c" using lt c by auto
        from circ_shift_neq [OF r k] wr show False by blast
      qed
      then show ?thesis using c lt
        by (simp add: pending_def Add_def Let_def nth_append del: upt_Suc)
    qed
  qed
qed

lemma batch_size_le:
  "batch_size m b \<le> nat m" "batch_size m b \<le> unprocessed b"
  "batch_size m b \<le> length (slots b) - readIdx b"
  by (simp_all add: batch_size_def)

lemma batch_size_pos:
  assumes "rb_wf b" "0 < m" "0 < unprocessed b"
  shows "0 < batch_size m b"
  using assms by (simp add: batch_size_def rb_wf_def)

lemma NextBatch_view:
  assumes "rb_wf b"
  shows "chunk_read (snd (NextBatch m b)) (fst (NextBatch m b)) = take (batch_size m b) (pending b)"
    and "pending (snd (NextBatch m b)) = drop (batch_size m b) (pending b)"
    and "unprocessed (snd (NextBatch m b)) = unprocessed b - batch_size m b"
    and "length (fst (NextBatch m b)) = batch_size m b"
proof -
  let ?c = "length (slots b)"
  let ?n = "batch_size m b"
  note le = batch_size_le [of m b]
  show "unprocessed (snd (NextBatch m b)) = unprocessed b - ?n"
    by (simp add: NextBatch_def Let_def)
  show "length (fst (NextBatch m b)) = ?n"
    by (simp add: NextBatch_def Let_def)
  show "chunk_read (snd (NextBatch m b)) (fst (NextBatch m b)) = take ?n (pending b)"
  proof (rule nth_equalityI)
    show "length (chunk_read (snd (NextBatch m b)) (fst (NextBatch m b))) = length (take ?n (pending b))"
      using le(2) by (simp add: chunk_read_def NextBatch_def Let_def length_pending)
  next
    fix i assume "i < length (chunk_read (snd (NextBatch m b)) (fst (NextBatch m b)))"
    then have i: "i < ?n" by (simp add: chunk_read_def NextBatch_def Let_def)
    then have "readIdx b + i < ?c" using le(3) by linarith
    then have "(readIdx b + i) mod ?c = readIdx b + i" by simp
    then show "chunk_read (snd (NextBatch m b)) (fst (NextBatch m b)) ! i = take ?n (pending b) ! i"
      using i le(2) by (simp add: chunk_read_def NextBatch_def Let_def pending_def)
  qed
  show "pending (snd (NextBatch m b)) = drop ?n (pending b)"
  proof (rule nth_equalityI)
    show "length (pending (snd (NextBatch m b))) = length (drop ?n (pending b))"
      by (simp add: length_pending NextBatch_def Let_def)
  next
    fix i assume "i < length (pending (snd (NextBatch m b)))"
    then have i: "i < unprocessed b - ?n" by (simp add: length_pending NextBatch_def Let_def)
    then have ni: "?n + i < unprocessed b" by linarith
    have "((readIdx b + ?n) mod ?c + i) mod ?c = (readIdx b + ?n + i) mod ?c"
      by (rule mod_add_left_eq)
    then show "pending (snd (NextBatch m b)) ! i = drop ?n (pending b) ! i"
      using i ni le(2) by (simp add: pending_def NextBatch_def Let_def add.assoc)
  qed
qed

lemma rb_run_wf: "rb_wf b \<Longrightarrow> rb_wf (snd (rb_run ops b))"
proof (induction ops arbitrary: b)
  case Nil
  then show ?case by simp
next
  case (Cons a ops)
  show ?case
  proof (cases a)
    case (OpAdd x)
    then show ?thesis using Cons.IH [OF Add_wf [OF Cons.prems]] by simp
  next
    case (OpNextBatch m)
    then show ?thesis using Cons.IH [OF NextBatch_wf [OF Cons.prems, of m]]
      by (simp add: split_beta Let_def)
  qed
qed

lemma rb_run_Size: "Size (snd (rb_run ops b)) = Size b"
proof (induction ops arbitrary: b)
  case Nil
  then show ?case by simp
next
  case (Cons a ops)
  then show ?case
    by (cases a) (simp_all add: split_beta Let_def Add_Size NextBatch_Size)
qed

lemma pending_Add_subseq:
  assumes "rb_wf b"
  shows "subseq (pending (snd (Add x b))) (pending b @ [x])"
proof (cases "unprocessed b = Size b")
  case True
  have "subseq (tl (pending b)) (pending b)"
    by (cases "pending b") (simp_all add: list_emb_Cons)
  then have "subseq (tl (pending b) @ [x]) (pending b @ [x])"
    by (intro list_emb_append_mono) simp_all
  then show ?thesis using pending_Add_full(2) [OF assms True, of x] by simp
next
  case False
  then show ?thesis using pending_Add_room(2) [OF assms False, of x] by simp
qed

lemma rb_run_order:
  assumes "rb_wf b"
  shows "subseq (concat (fst (rb_run ops b)) @ pending (snd (rb_run ops b))) (pending b @ added ops)"
  using assms
proof (induction ops arbitrary: b)
  case Nil
  then show ?case by simp
next
  case (Cons a ops)
  show ?case
  proof (cases a)
    case (OpAdd x)
    let ?b1 = "snd (Add x b)"
    have "subseq (concat (fst (rb_run ops ?b1)) @ pending (snd (rb_run ops ?b1))) (pending ?b1 @ added ops)"
      by (rule Cons.IH [OF Add_wf [OF Cons.prems]])
    moreover have "subseq (pending ?b1 @ added ops) ((pending b @ [x]) @ added ops)"
      by (intro list_emb_append_mono pending_Add_subseq [OF Cons.prems]) simp
    ultimately show ?thesis using OpAdd by (auto intro: subseq_order.order_trans)
  next
    case (OpNextBatch m)
    let ?b1 = "snd (NextBatch m b)"
    let ?n = "batch_size m b"
    have ih: "subseq (concat (fst (rb_run ops ?b1)) @ pending (snd (rb_run ops ?b1))) (pending ?b1 @ added ops)"
      by (rule Cons.IH [OF NextBatch_wf [OF Cons.prems]])
    have "subseq (take ?n (pending b) @ concat (fst (rb_run ops ?b1)) @ pending (snd (rb_run ops ?b1)))
            (take ?n (pending b) @ drop ?n (pending b) @ added ops)"
      using ih NextBatch_view(2) [OF Cons.prems, of m] by (simp add: subseq_append')
    then have "subseq (take ?n (pending b) @ concat (fst (rb_run ops ?b1)) @ pending (snd (rb_run ops ?b1)))
            (pending b @ added ops)"
      by (simp only: append_assoc [symmetric] append_take_drop_id)
    then show ?thesis using OpNextBatch NextBatch_view(1) [OF Cons.prems, of m]
      by (simp add: split_beta Let_def)
  qed
qed

lemma rb_run_unprocessed_le: "rb_wf b \<Longrightarrow> UnprocessedCount (snd (rb_run ops b)) \<le> Size b"
  using rb_run_wf [of b ops] rb_run_Size [of ops b]
  by (simp add: rb_wf_def Size_def UnprocessedCount_def)

lemma rb_run_append:
  "rb_run (ops1 @ ops2) b =
     (fst (rb_run ops1 b) @ fst (rb_run ops2 (snd (rb_run ops1 b))), snd (rb_run ops2 (snd (rb_run ops1 b))))"
proof (induction ops1 arbitrary: b)
  case Nil
  then show ?case by simp
next
  case (Cons a ops1)
  then show ?case by (cases a) (simp_all add: split_beta Let_def)
qed



lemma rb_run_outputs_from:
  assumes "rb_wf b" "batch \<in> set (fst (rb_run ops b))"
  shows "set batch \<subseteq> set (pending b) \<union> set (added ops)"
proof
  fix x assume "x \<in> set batch"
  then have x: "x \<in> set (concat (fst (rb_run ops b)) @ pending (snd (rb_run ops b)))"
    using assms(2) by auto
  have "subseq (concat (fst (rb_run ops b)) @ pending (snd (rb_run ops b))) (pending b @ added ops)"
    by (rule rb_run_order [OF assms(1)])
  from list_emb_set [OF this x] show "x \<in> set (pending b) \<union> set (added ops)"
    by auto
qed

section \<open>Ring buffer: the claims\<close>

text \<open>
  C6. For a ring buffer of capacity \<open>C\<close> and every sequence of insertions
  interleaved with \<open>NextBatch\<close> calls, \<open>UnprocessedCount() \<le> C\<close> holds in every state
  the sequence reaches, in particular after every insertion, and the capacity stays \<open>C\<close>.
\<close>

theorem UnprocessedCount_le_capacity:
  assumes "NewInstanceRingBuffer c = Inr b0"
  shows "UnprocessedCount (snd (rb_run ops b0)) \<le> nat c
       \<and> UnprocessedCount (snd (Add x (snd (rb_run ops b0)))) \<le> nat c
       \<and> Size (snd (Add x (snd (rb_run ops b0)))) = nat c"
proof -
  from rb_wf_New [OF assms] have wf: "rb_wf b0" and sz: "Size b0 = nat c" by simp_all
  have 1: "UnprocessedCount (snd (rb_run ops b0)) \<le> nat c"
    using rb_run_unprocessed_le [OF wf, of ops] sz by simp
  have "snd (Add x (snd (rb_run ops b0))) = snd (rb_run (ops @ [OpAdd x]) b0)"
    by (simp add: rb_run_append)
  then have 2: "UnprocessedCount (snd (Add x (snd (rb_run ops b0)))) \<le> nat c"
    using rb_run_unprocessed_le [OF wf, of "ops @ [OpAdd x]"] sz by simp
  have 3: "Size (snd (Add x (snd (rb_run ops b0)))) = nat c"
    by (simp add: Add_Size rb_run_Size sz)
  from 1 2 3 show ?thesis by simp
qed

theorem UnprocessedCount_le_capacity_witness:
  "NewInstanceRingBuffer 2 = Inr \<lparr>slots = [None, None :: nat option], readIdx = 0, unprocessed = 0\<rparr>
   \<and> UnprocessedCount (snd (Add (Some 4)
        (snd (rb_run [OpAdd (Some 1), OpAdd (Some 2), OpNextBatch 1, OpAdd (Some 3)]
           \<lparr>slots = [None, None :: nat option], readIdx = 0, unprocessed = 0\<rparr>)))) = 2"
proof -
  have n: "NewInstanceRingBuffer 2 = Inr \<lparr>slots = [None, None :: nat option], readIdx = 0, unprocessed = 0\<rparr>"
    by (simp add: NewInstanceRingBuffer_def numeral_2_eq_2)
  have "UnprocessedCount (snd (Add (Some 4)
        (snd (rb_run [OpAdd (Some 1), OpAdd (Some 2), OpNextBatch 1, OpAdd (Some 3)]
           \<lparr>slots = [None, None :: nat option], readIdx = 0, unprocessed = 0\<rparr>)))) = 2"
    by (simp add: Add_def NextBatch_def batch_size_def UnprocessedCount_def Let_def)
  with n UnprocessedCount_le_capacity [OF n, of "[OpAdd (Some 1), OpAdd (Some 2), OpNextBatch 1, OpAdd (Some 3)]" "Some 4"]
  show ?thesis by simp
qed

text \<open>
  C2. On a buffer of capacity \<open>C\<close> that holds \<open>C\<close> unprocessed entries, \<open>Add\<close> returns
  true and drops the oldest unprocessed entry: the unprocessed entries become the old
  ones without their head, followed by the new item. The dropped entry, when it is
  distinct from the entries that remain and from those inserted later, is in no batch
  that any later sequence of operations returns. On a buffer that is not full \<open>Add\<close>
  returns false and appends. \<open>Add\<close> is a total function (it never waits or fails), the
  capacity does not change and the unprocessed count stays within it.
\<close>

theorem Add_overwrites_oldest_when_full:
  assumes new: "NewInstanceRingBuffer c = Inr b0"
    and b: "b = snd (rb_run pre b0)"
  shows "(UnprocessedCount b = Size b \<longrightarrow>
            fst (Add x b) = True
          \<and> pending (snd (Add x b)) = tl (pending b) @ [x]
          \<and> (hd (pending b) \<notin> set (tl (pending b)) \<and> hd (pending b) \<noteq> x
               \<and> hd (pending b) \<notin> set (added ops)
             \<longrightarrow> (\<forall>batch \<in> set (fst (rb_run ops (snd (Add x b)))). hd (pending b) \<notin> set batch)))
       \<and> (UnprocessedCount b \<noteq> Size b \<longrightarrow>
            fst (Add x b) = False \<and> pending (snd (Add x b)) = pending b @ [x])
       \<and> Size (snd (Add x b)) = Size b
       \<and> UnprocessedCount (snd (Add x b)) \<le> Size b
       \<and> Size b = nat c"
proof -
  from rb_wf_New [OF new] have wf0: "rb_wf b0" and sz: "Size b0 = nat c" by simp_all
  have wf: "rb_wf b" unfolding b by (rule rb_run_wf [OF wf0])
  have wf': "rb_wf (snd (Add x b))" by (rule Add_wf [OF wf])
  have full: "fst (Add x b) = True \<and> pending (snd (Add x b)) = tl (pending b) @ [x]"
    if "UnprocessedCount b = Size b"
    using pending_Add_full [OF wf, of x] that by (simp add: UnprocessedCount_def)
  have never: "\<forall>batch \<in> set (fst (rb_run ops (snd (Add x b)))). hd (pending b) \<notin> set batch"
    if f: "UnprocessedCount b = Size b"
      and d: "hd (pending b) \<notin> set (tl (pending b)) \<and> hd (pending b) \<noteq> x \<and> hd (pending b) \<notin> set (added ops)"
  proof
    fix batch assume "batch \<in> set (fst (rb_run ops (snd (Add x b))))"
    from rb_run_outputs_from [OF wf' this] full [OF f]
    have "set batch \<subseteq> set (tl (pending b)) \<union> {x} \<union> set (added ops)" by auto
    with d show "hd (pending b) \<notin> set batch" by auto
  qed
  have room: "fst (Add x b) = False \<and> pending (snd (Add x b)) = pending b @ [x]"
    if "UnprocessedCount b \<noteq> Size b"
    using pending_Add_room [OF wf, of x] that by (simp add: UnprocessedCount_def)
  have s: "Size (snd (Add x b)) = Size b" by (rule Add_Size)
  have u: "UnprocessedCount (snd (Add x b)) \<le> Size b"
    using wf' s by (simp add: rb_wf_def Size_def UnprocessedCount_def)
  have c: "Size b = nat c" unfolding b by (simp add: rb_run_Size sz)
  from full never room s u c show ?thesis by blast
qed


theorem Add_overwrites_oldest_when_full_witness:
  "NewInstanceRingBuffer 2 = Inr \<lparr>slots = [None, None :: nat option], readIdx = 0, unprocessed = 0\<rparr>
   \<and> fst (Add (Some 3) (snd (rb_run [OpAdd (Some 1), OpAdd (Some 2)]
          \<lparr>slots = [None, None :: nat option], readIdx = 0, unprocessed = 0\<rparr>))) = True
   \<and> pending (snd (Add (Some 3) (snd (rb_run [OpAdd (Some 1), OpAdd (Some 2)]
          \<lparr>slots = [None, None :: nat option], readIdx = 0, unprocessed = 0\<rparr>)))) = [Some 2, Some 3]
   \<and> Some 1 \<notin> set (concat (fst (rb_run [OpNextBatch 5, OpAdd (Some 4), OpNextBatch 5]
          (snd (Add (Some 3) (snd (rb_run [OpAdd (Some 1), OpAdd (Some 2)]
             \<lparr>slots = [None, None :: nat option], readIdx = 0, unprocessed = 0\<rparr>)))))))
   \<and> fst (Add (Some 2) (snd (rb_run [OpAdd (Some 1)]
          \<lparr>slots = [None, None :: nat option], readIdx = 0, unprocessed = 0\<rparr>))) = False"
proof -
  let ?z = "\<lparr>slots = [None, None :: nat option], readIdx = 0, unprocessed = 0\<rparr>"
  let ?b = "snd (rb_run [OpAdd (Some 1), OpAdd (Some 2)] ?z)"
  let ?b' = "snd (rb_run [OpAdd (Some 1)] ?z)"
  have n: "NewInstanceRingBuffer 2 = Inr ?z"
    by (simp add: NewInstanceRingBuffer_def numeral_2_eq_2)
  have bv: "?b = \<lparr>slots = [Some 1, Some 2], readIdx = 0, unprocessed = 2\<rparr>"
    by (simp add: Add_def Let_def)
  have bv': "?b' = \<lparr>slots = [Some 1, None], readIdx = 0, unprocessed = 1\<rparr>"
    by (simp add: Add_def Let_def)
  have p: "pending ?b = [Some 1, Some 2]"
    unfolding bv by (simp add: pending_def upt_rec numeral_2_eq_2)
  have f: "UnprocessedCount ?b = Size ?b"
    unfolding bv by (simp add: UnprocessedCount_def Size_def)
  have f': "UnprocessedCount ?b' \<noteq> Size ?b'"
    unfolding bv' by (simp add: UnprocessedCount_def Size_def)
  have a: "added [OpNextBatch 5, OpAdd (Some 4), OpNextBatch 5] = [Some (4::nat)]" by simp
  from Add_overwrites_oldest_when_full [where pre = "[OpAdd (Some 1), OpAdd (Some 2)]" and x = "Some 3"
      and ops = "[OpNextBatch 5, OpAdd (Some 4), OpNextBatch 5]", OF n refl] f
  have "fst (Add (Some 3) ?b) = True" and "pending (snd (Add (Some 3) ?b)) = tl (pending ?b) @ [Some 3]"
    and "hd (pending ?b) \<notin> set (tl (pending ?b)) \<and> hd (pending ?b) \<noteq> Some 3
               \<and> hd (pending ?b) \<notin> set (added [OpNextBatch 5, OpAdd (Some 4), OpNextBatch 5])
         \<longrightarrow> (\<forall>batch \<in> set (fst (rb_run [OpNextBatch 5, OpAdd (Some 4), OpNextBatch 5] (snd (Add (Some 3) ?b)))).
               hd (pending ?b) \<notin> set batch)"
    by blast+
  moreover from Add_overwrites_oldest_when_full [where pre = "[OpAdd (Some 1)]" and x = "Some 2" and ops = "[]",
      OF n refl] f'
  have "fst (Add (Some 2) ?b') = False" by blast
  ultimately show ?thesis using n unfolding p a by simp
qed



section \<open>The writer: arithmetic of the counters\<close>

lemma sint_succ:
  fixes a b :: "64 word"
  assumes "sint a < sint b"
  shows "sint (a + 1) = sint a + 1"
proof -
  have "sint b < 2 ^ 63" using sint_lt [of b] by simp
  moreover have "- (2 ^ 63) \<le> sint a" using sint_ge [of a] by simp
  ultimately have r: "- (2 ^ 63) \<le> sint a + 1" "sint a + 1 < 2 ^ 63" using assms by simp_all
  have "sint (a + 1) = signed_take_bit 63 (sint a + 1)"
    by (simp add: sint_word_ariths)
  also have "\<dots> = sint a + 1"
    using r by (simp add: signed_take_bit_int_eq_self)
  finally show ?thesis .
qed

lemma sint_pred:
  fixes a :: "64 word"
  assumes "0 < sint a"
  shows "sint (a - 1) = sint a - 1"
proof -
  have "sint a < 2 ^ 63" using sint_lt [of a] by simp
  then have r: "- (2 ^ 63) \<le> sint a - 1" "sint a - 1 < 2 ^ 63" using assms by simp_all
  have "sint (a - 1) = signed_take_bit 63 (sint a - 1)"
    by (simp add: sint_word_ariths)
  also have "\<dots> = sint a - 1"
    using r by (simp add: signed_take_bit_int_eq_self)
  finally show ?thesis .
qed

lemma of_nat_64_eq_0:
  assumes "int n \<le> sint (m :: 64 word)"
  shows "(of_nat n :: 64 word) = 0 \<longleftrightarrow> n = 0"
proof -
  have "sint m < 2 ^ 63" using sint_lt [of m] by simp
  then have "int n < 2 ^ 64" using assms by simp
  then have "n < 2 ^ 64" by (simp add: nat_less_iff [symmetric] flip: of_nat_less_iff)
  then show ?thesis
    by (auto simp: word_of_nat_eq_0_iff dest: dvd_imp_le)
qed

lemma sint_of_nat_64:
  assumes "int n \<le> sint (m :: 64 word)"
  shows "sint (of_nat n :: 64 word) = int n"
proof -
  have "sint m < 2 ^ 63" using sint_lt [of m] by simp
  then have "int n < 2 ^ 63" using assms by simp
  then show ?thesis
    by (simp add: signed_of_nat signed_take_bit_int_eq_self)
qed


section \<open>Chunk slices: facts\<close>

declare nil_above.simps [simp del]

lemma nil_above_len [simp]: "len (nil_above i s) = len s"
  by (induction i s rule: nil_above.induct) (subst nil_above.simps, simp)

lemma nil_above_length [simp]: "length (arr (nil_above i s)) = length (arr s)"
  by (induction i s rule: nil_above.induct) (subst nil_above.simps, simp)

lemma nil_above_nth:
  "j < length (arr s) \<Longrightarrow>
     arr (nil_above i s) ! j = (if i \<le> j \<and> j < len s then None else arr s ! j)"
proof (induction i s rule: nil_above.induct)
  case (1 i s)
  show ?case
  proof (cases "i < len s")
    case True
    have "arr (nil_above i s) ! j = arr (nil_above (Suc i) (s\<lparr>arr := (arr s)[i := None]\<rparr>)) ! j"
      using True by (subst nil_above.simps) simp
    also have "\<dots> = (if Suc i \<le> j \<and> j < len s then None else (arr s)[i := None] ! j)"
      using "1.IH" [OF True] "1.prems" by simp
    also have "\<dots> = (if i \<le> j \<and> j < len s then None else arr s ! j)"
      using True "1.prems" by (auto simp: nth_list_update)
    finally show ?thesis .
  next
    case False
    then have "nil_above i s = s" by (subst nil_above.simps) simp
    then show ?thesis using False by auto
  qed
qed

lemma reslice_nil_above:
  assumes "sz \<le> length (arr sl)"
  shows "reslice sz (nil_above sz sl) = Inr ((nil_above sz sl)\<lparr>len := sz\<rparr>)"
  using assms by (simp add: reslice_def)

lemma chunk_ok_getChunk:
  assumes "chunk_ok sl" "sz \<le> length (arr sl)"
  shows "chunk_ok ((nil_above sz sl)\<lparr>len := sz\<rparr>)"
proof -
  have "x = None" if x: "x \<in> set (drop sz (arr (nil_above sz sl)))" for x
  proof -
    from x obtain k where k: "k < length (arr sl) - sz" "x = arr (nil_above sz sl) ! (sz + k)"
      by (auto simp: in_set_conv_nth)
    show ?thesis
    proof (cases "sz + k < len sl")
      case True
      then show ?thesis using k by (simp add: nil_above_nth)
    next
      case False
      then have "arr sl ! (sz + k) \<in> set (drop (len sl) (arr sl))"
        using k(1) by (auto simp: in_set_conv_nth intro!: exI [of _ "sz + k - len sl"])
      then have "arr sl ! (sz + k) = None" using assms(1) by (auto simp: chunk_ok_def)
      then show ?thesis using k False by (simp add: nil_above_nth)
    qed
  qed
  then show ?thesis using assms(2) by (auto simp: chunk_ok_def)
qed

lemma chunk_ok_copy:
  assumes "chunk_ok s" "length src = len s"
  shows "chunk_ok (copy_slice s src)" "length (arr (copy_slice s src)) = length (arr s)"
    "len (copy_slice s src) = len s" "elems (copy_slice s src) = src"
  using assms by (auto simp: chunk_ok_def copy_slice_def elems_def)

lemma chunk_ok_make: "chunk_ok (make_chunk c)" "length (arr (make_chunk c)) = c"
  by (auto simp: chunk_ok_def make_chunk_def)


section \<open>The writer: dispatch\<close>

lemma writer_invD:
  assumes "writer_inv w"
  shows "0 < sint (MaxRequests w)" and "0 < sint (MaxBatchSize w)"
    and "sint (requestsActive w) = int (length (tasks w)) + int (length (requestDoneCh w))"
    and "sint (requestsActive w) \<le> sint (MaxRequests w)"
    and "int (length (chunkSliceCache w)) + int (length (filter holds_slice (tasks w))) = sint (MaxRequests w)"
    and "\<And>s. s \<in> set (chunkSliceCache w) \<Longrightarrow> int (length (arr s)) = sint (MaxBatchSize w) \<and> chunk_ok s"
    and "\<And>t. t \<in> set (tasks w) \<Longrightarrow>
           int (length (arr (task_chunk t))) = sint (MaxBatchSize w) \<and> chunk_ok (task_chunk t)
           \<and> task_count t = of_nat (len (task_chunk t))"
    and "\<exists>b. buff w = Some b"
  using assms unfolding writer_inv_def by (auto split: option.splits)

lemma writer_inv_buffD:
  assumes "writer_inv w" "buff w = Some b"
  shows "rb_wf b" and "int (Size b) = sint (MaxBuffered w)" and "unprocessed b = 0 \<Longrightarrow> totalWaiting w = 0"
  using assms unfolding writer_inv_def by auto

lemma writer_invI:
  assumes "buff w = Some b" "rb_wf b" "int (Size b) = sint (MaxBuffered w)"
    and "unprocessed b = 0 \<Longrightarrow> totalWaiting w = 0"
    and "0 < sint (MaxRequests w)" and "0 < sint (MaxBatchSize w)"
    and "sint (requestsActive w) = int (length (tasks w)) + int (length (requestDoneCh w))"
    and "sint (requestsActive w) \<le> sint (MaxRequests w)"
    and "int (length (chunkSliceCache w)) + int (length (filter holds_slice (tasks w))) = sint (MaxRequests w)"
    and "\<And>s. s \<in> set (chunkSliceCache w) \<Longrightarrow> int (length (arr s)) = sint (MaxBatchSize w) \<and> chunk_ok s"
    and "\<And>t. t \<in> set (tasks w) \<Longrightarrow>
           int (length (arr (task_chunk t))) = sint (MaxBatchSize w) \<and> chunk_ok (task_chunk t)
           \<and> task_count t = of_nat (len (task_chunk t))"
  shows "writer_inv w"
  using assms unfolding writer_inv_def by auto

lemma NextBatch_nothing:
  assumes "rb_wf b" "unprocessed b = 0"
  shows "NextBatch m b = ([], b)"
  using assms by (simp add: NextBatch_def batch_size_def rb_wf_def Let_def)

lemma chunk_clear_simps [simp]:
  "readIdx (chunk_clear ps b) = readIdx b"
  "unprocessed (chunk_clear ps b) = unprocessed b"
  "length (slots (chunk_clear ps b)) = length (slots b)"
proof -
  have "length (fold (\<lambda>p s. s[p := None]) ps xs) = length xs" for xs :: "'a option list"
    by (induction ps arbitrary: xs) simp_all
  then show "length (slots (chunk_clear ps b)) = length (slots b)"
    by (simp add: chunk_clear_def)
qed (simp_all add: chunk_clear_def)

lemma chunk_clear_wf: "rb_wf b \<Longrightarrow> rb_wf (chunk_clear ps b)"
  by (simp add: rb_wf_def)

lemma tryToSendChunk_limit:
  assumes "buff w = Some b" "MaxRequests w \<le>s requestsActive w"
  shows "tryToSendChunk w = Inr (w\<lparr>totalWaiting := of_nat (UnprocessedCount b)\<rparr>)"
  using assms by (simp add: tryToSendChunk_def)

lemma tryToSendChunk_empty:
  assumes "buff w = Some b" "rb_wf b" "\<not> MaxRequests w \<le>s requestsActive w" "unprocessed b = 0"
  shows "tryToSendChunk w = Inr w"
  using assms by (simp add: tryToSendChunk_def NextBatch_nothing UnprocessedCount_def)

lemma cache_nonempty:
  assumes inv: "writer_inv w" and room: "\<not> MaxRequests w \<le>s requestsActive w"
  shows "chunkSliceCache w \<noteq> []"
proof
  assume e: "chunkSliceCache w = []"
  have "int (length (filter holds_slice (tasks w))) \<le> sint (requestsActive w)"
    using writer_invD(3) [OF inv] length_filter_le [of holds_slice "tasks w"] by linarith
  moreover have "int (length (filter holds_slice (tasks w))) = sint (MaxRequests w)"
    using writer_invD(5) [OF inv] e by simp
  ultimately show False using room by (simp add: word_sle_eq)
qed

lemma tryToSendChunk_dispatch:
  assumes inv: "writer_inv w" and b: "buff w = Some b"
    and room: "\<not> MaxRequests w \<le>s requestsActive w" and pos: "0 < unprocessed b"
    and c: "chunkSliceCache w = sl # rest"
    and n: "n = batch_size (sint (MaxBatchSize w)) b"
  shows "tryToSendChunk w =
     Inr (w\<lparr>buff := Some (chunk_clear (fst (NextBatch (sint (MaxBatchSize w)) b))
                            (snd (NextBatch (sint (MaxBatchSize w)) b))),
            TotalInFlight := TotalInFlight w + of_nat n,
            requestsActive := requestsActive w + 1,
            chunkSliceCache := rest,
            tasks := tasks w @ [\<lparr>task_chunk = copy_slice ((nil_above n sl)\<lparr>len := n\<rparr>) (take n (pending b)),
                                 task_count = of_nat n, task_phase = InSink\<rparr>],
            totalWaiting := of_nat (unprocessed b - n)\<rparr>)"
    and "0 < n"
proof -
  let ?m = "sint (MaxBatchSize w)"
  have wf: "rb_wf b" by (rule writer_inv_buffD(1) [OF inv b])
  have mbs: "0 < ?m" by (rule writer_invD(2) [OF inv])
  show n0: "0 < n" unfolding n by (rule batch_size_pos [OF wf mbs pos])
  have ln: "length (fst (NextBatch ?m b)) = n" using NextBatch_view(4) [OF wf, of ?m] n by simp
  have "int n \<le> ?m" using batch_size_le(1) [of ?m b] mbs unfolding n by linarith
  then have nz: "(of_nat n :: 64 word) \<noteq> 0" using n0 by (simp add: of_nat_64_eq_0)
  have cap: "int (length (arr sl)) = ?m" using writer_invD(6) [OF inv, of sl] c by simp
  then have "n \<le> length (arr sl)" using \<open>int n \<le> ?m\<close> by simp
  then have rs: "reslice n (nil_above n sl) = Inr ((nil_above n sl)\<lparr>len := n\<rparr>)"
    by (rule reslice_nil_above)
  have rd: "chunk_read (snd (NextBatch ?m b)) (fst (NextBatch ?m b)) = take n (pending b)"
    using NextBatch_view(1) [OF wf, of ?m] n by simp
  have un: "unprocessed (snd (NextBatch ?m b)) = unprocessed b - n"
    using NextBatch_view(3) [OF wf, of ?m] n by simp
  show "tryToSendChunk w =
     Inr (w\<lparr>buff := Some (chunk_clear (fst (NextBatch ?m b)) (snd (NextBatch ?m b))),
            TotalInFlight := TotalInFlight w + of_nat n,
            requestsActive := requestsActive w + 1,
            chunkSliceCache := rest,
            tasks := tasks w @ [\<lparr>task_chunk = copy_slice ((nil_above n sl)\<lparr>len := n\<rparr>) (take n (pending b)),
                                 task_count = of_nat n, task_phase = InSink\<rparr>],
            totalWaiting := of_nat (unprocessed b - n)\<rparr>)"
    using b room c ln nz rs rd un
    by (simp add: tryToSendChunk_def getChunkSlice_def split_beta Let_def UnprocessedCount_def)
qed

lemma tryToSendChunk_inv:
  assumes inv: "writer_inv w"
  shows "\<exists>w'. tryToSendChunk w = Inr w' \<and> writer_inv w' \<and> loop w' = loop w
           \<and> shutdownFlag w' = shutdownFlag w \<and> requestDoneCh w' = requestDoneCh w
           \<and> MaxBuffered w' = MaxBuffered w \<and> MaxRequests w' = MaxRequests w
           \<and> MaxBatchSize w' = MaxBatchSize w"
proof -
  from writer_invD(8) [OF inv] obtain b where b: "buff w = Some b" ..
  note bd = writer_inv_buffD [OF inv b]
  note d = writer_invD [OF inv]
  show ?thesis
  proof (cases "MaxRequests w \<le>s requestsActive w")
    case True
    let ?w = "w\<lparr>totalWaiting := of_nat (UnprocessedCount b)\<rparr>"
    have "writer_inv ?w"
      by (rule writer_invI [where b = b]) (use b bd d in \<open>simp_all add: UnprocessedCount_def\<close>)
    then show ?thesis using tryToSendChunk_limit [OF b True] by simp
  next
    case room: False
    show ?thesis
    proof (cases "unprocessed b = 0")
      case True
      then show ?thesis using tryToSendChunk_empty [OF b bd(1) room] inv by simp
    next
      case False
      then have pos: "0 < unprocessed b" by simp
      from cache_nonempty [OF inv room] obtain sl rest where c: "chunkSliceCache w = sl # rest"
        by (cases "chunkSliceCache w") auto
      define n where "n = batch_size (sint (MaxBatchSize w)) b"
      let ?m = "sint (MaxBatchSize w)"
      let ?b2 = "chunk_clear (fst (NextBatch ?m b)) (snd (NextBatch ?m b))"
      let ?t = "\<lparr>task_chunk = copy_slice ((nil_above n sl)\<lparr>len := n\<rparr>) (take n (pending b)),
                 task_count = of_nat n, task_phase = InSink\<rparr>"
      let ?w = "w\<lparr>buff := Some ?b2,
            TotalInFlight := TotalInFlight w + of_nat n,
            requestsActive := requestsActive w + 1,
            chunkSliceCache := rest,
            tasks := tasks w @ [?t],
            totalWaiting := of_nat (unprocessed b - n)\<rparr>"
      note disp = tryToSendChunk_dispatch [OF inv b room pos c n_def]
      have sl: "int (length (arr sl)) = ?m" "chunk_ok sl" using d(6) [of sl] c by simp_all
      have nle: "n \<le> length (arr sl)"
        using sl(1) d(2) batch_size_le(1) [of "sint (MaxBatchSize w)" b] unfolding n_def by linarith
      have ok1: "chunk_ok ((nil_above n sl)\<lparr>len := n\<rparr>)" by (rule chunk_ok_getChunk [OF sl(2) nle])
      have lt: "length (take n (pending b)) = len ((nil_above n sl)\<lparr>len := n\<rparr>)"
        using batch_size_le(2) [of "sint (MaxBatchSize w)" b] by (simp add: length_pending n_def)
      note cp = chunk_ok_copy [OF ok1 lt]
      have ra: "sint (requestsActive w + 1) = sint (requestsActive w) + 1"
        using room by (intro sint_succ [of _ "MaxRequests w"]) (simp add: word_sle_eq)
      have wf2: "rb_wf ?b2" by (intro chunk_clear_wf NextBatch_wf bd(1))
      have sz2: "Size ?b2 = Size b" by (simp add: Size_def NextBatch_def Let_def)
      have un2: "unprocessed ?b2 = unprocessed b - n"
        using NextBatch_view(3) [OF bd(1), of ?m] by (simp add: n_def)
      have "writer_inv ?w"
      proof (rule writer_invI [where b = ?b2])
        show "sint (requestsActive ?w) = int (length (tasks ?w)) + int (length (requestDoneCh ?w))"
          using ra d(3) by simp
        show "sint (requestsActive ?w) \<le> sint (MaxRequests ?w)"
          using ra room by (simp add: word_sle_eq)
        show "int (length (chunkSliceCache ?w)) + int (length (filter holds_slice (tasks ?w))) = sint (MaxRequests ?w)"
          using d(5) c by (simp add: holds_slice_def)
        show "int (length (arr s)) = sint (MaxBatchSize ?w) \<and> chunk_ok s" if "s \<in> set (chunkSliceCache ?w)" for s
          using that d(6) [of s] c by simp
        show "int (length (arr (task_chunk t))) = sint (MaxBatchSize ?w) \<and> chunk_ok (task_chunk t)
           \<and> task_count t = of_nat (len (task_chunk t))" if "t \<in> set (tasks ?w)" for t
          using that d(7) [of t] cp sl(1) by auto
      qed (use wf2 sz2 un2 bd d in simp_all)
      then show ?thesis using disp(1) by simp
    qed
  qed
qed


section \<open>The writer: completions and input\<close>

lemma writer_inv_counters [simp]:
  "writer_inv (w\<lparr>TotalReceived := a\<rparr>) = writer_inv w"
  "writer_inv (w\<lparr>TotalFilteredOut := a\<rparr>) = writer_inv w"
  "writer_inv (w\<lparr>TotalInFlight := a\<rparr>) = writer_inv w"
  "writer_inv (w\<lparr>TotalSent := a\<rparr>) = writer_inv w"
  "writer_inv (w\<lparr>TotalFailedToSend := a\<rparr>) = writer_inv w"
  "writer_inv (w\<lparr>TotalOverwritten := a\<rparr>) = writer_inv w"
  "writer_inv (w\<lparr>overwriteCalls := k\<rparr>) = writer_inv w"
  "writer_inv (w\<lparr>loop := l\<rparr>) = writer_inv w"
  "writer_inv (w\<lparr>shutdownFlag := f\<rparr>) = writer_inv w"
  by (simp_all add: writer_inv_def cong: option.case_cong)

lemma handleRequestDone_inv:
  assumes inv: "writer_inv w" and ch: "requestDoneCh w = c # rest"
  shows "\<exists>w'. handleRequestDone c (w\<lparr>requestDoneCh := rest\<rparr>) = Inr w' \<and> writer_inv w' \<and> loop w' = loop w
           \<and> shutdownFlag w' = shutdownFlag w \<and> requestDoneCh w' = rest
           \<and> MaxBuffered w' = MaxBuffered w \<and> MaxRequests w' = MaxRequests w
           \<and> MaxBatchSize w' = MaxBatchSize w"
proof -
  from writer_invD(8) [OF inv] obtain b where b: "buff w = Some b" ..
  note bd = writer_inv_buffD [OF inv b]
  note d = writer_invD [OF inv]
  let ?w1 = "w\<lparr>requestDoneCh := rest, requestsActive := requestsActive w - 1,
               TotalInFlight := TotalInFlight w - c\<rparr>"
  have "0 < sint (requestsActive w)" using d(3) ch by simp
  then have ra: "sint (requestsActive w - 1) = sint (requestsActive w) - 1" by (rule sint_pred)
  have inv1: "writer_inv ?w1"
    by (rule writer_invI [where b = b]) (use b bd d ra ch in simp_all)
  have h: "handleRequestDone c (w\<lparr>requestDoneCh := rest\<rparr>)
            = (if 0 <s totalWaiting w then tryToSendChunk ?w1 else Inr ?w1)"
    by (simp add: handleRequestDone_def Let_def)
  show ?thesis
  proof (cases "0 <s totalWaiting w")
    case True
    from tryToSendChunk_inv [OF inv1] True h show ?thesis by auto
  next
    case False
    with h inv1 show ?thesis by simp
  qed
qed

lemma pollRequestDone_inv:
  assumes inv: "writer_inv w"
  shows "\<exists>w'. pollRequestDone w = Inr w' \<and> writer_inv w' \<and> loop w' = loop w
           \<and> shutdownFlag w' = shutdownFlag w
           \<and> MaxBuffered w' = MaxBuffered w \<and> MaxRequests w' = MaxRequests w
           \<and> MaxBatchSize w' = MaxBatchSize w"
proof (cases "requestDoneCh w")
  case Nil
  then show ?thesis using inv by (simp add: pollRequestDone_def)
next
  case (Cons c rest)
  from handleRequestDone_inv [OF inv Cons] Cons show ?thesis
    by (auto simp: pollRequestDone_def)
qed

lemma Add_unprocessed_pos: "rb_wf b \<Longrightarrow> 0 < unprocessed (snd (Add x b))"
  by (auto simp: Add_def rb_wf_def Let_def)

lemma processOne_inv:
  assumes inv: "writer_inv w"
  shows "\<exists>w'. processOne inst w = Inr w' \<and> writer_inv w' \<and> loop w' = loop w
           \<and> shutdownFlag w' = shutdownFlag w
           \<and> MaxBuffered w' = MaxBuffered w \<and> MaxRequests w' = MaxRequests w
           \<and> MaxBatchSize w' = MaxBatchSize w"
proof (cases "case PreprocessFunc w of None \<Rightarrow> False | Some f \<Rightarrow> \<not> f inst")
  case True
  then have "processOne inst w = Inr (w\<lparr>TotalFilteredOut := TotalFilteredOut w + 1\<rparr>)"
    by (simp add: processOne_def)
  then show ?thesis using inv by simp
next
  case False
  from writer_invD(8) [OF inv] obtain b where b: "buff w = Some b" ..
  note bd = writer_inv_buffD [OF inv b]
  note d = writer_invD [OF inv]
  let ?b1 = "snd (Add inst b)"
  let ?w1 = "w\<lparr>buff := Some ?b1\<rparr>"
  let ?w2 = "if fst (Add inst b)
             then ?w1\<lparr>TotalOverwritten := TotalOverwritten ?w1 + 1,
                      overwriteCalls := overwriteCalls ?w1 + (if OverwriteFunc ?w1 then 1 else 0)\<rparr>
             else ?w1"
  have inv1: "writer_inv ?w1"
    by (rule writer_invI [where b = ?b1])
      (use b bd d Add_wf [OF bd(1), of inst] Add_unprocessed_pos [OF bd(1), of inst] in \<open>simp_all add: Add_Size\<close>)
  then have inv2: "writer_inv ?w2" by simp
  have same2: "loop ?w2 = loop w" "shutdownFlag ?w2 = shutdownFlag w" "MaxBuffered ?w2 = MaxBuffered w"
    "MaxRequests ?w2 = MaxRequests w" "MaxBatchSize ?w2 = MaxBatchSize w" by simp_all
  from pollRequestDone_inv [OF inv2] obtain w3 where w3: "pollRequestDone ?w2 = Inr w3" "writer_inv w3"
    "loop w3 = loop ?w2" "shutdownFlag w3 = shutdownFlag ?w2" "MaxBuffered w3 = MaxBuffered ?w2"
    "MaxRequests w3 = MaxRequests ?w2" "MaxBatchSize w3 = MaxBatchSize ?w2" by blast
  from writer_invD(8) [OF w3(2)] obtain b3 where b3: "buff w3 = Some b3" ..
  have p: "processOne inst w =
      (if sint (MaxBatchSize w3) \<le> int (UnprocessedCount b3) then tryToSendChunk w3 else Inr w3)"
    using False b w3(1) b3 by (simp add: processOne_def split_beta Let_def)
  show ?thesis
  proof (cases "sint (MaxBatchSize w3) \<le> int (UnprocessedCount b3)")
    case True
    from tryToSendChunk_inv [OF w3(2)] True p w3(3-) same2 show ?thesis by auto
  next
    case False
    with p w3 same2 show ?thesis by auto
  qed
qed


section \<open>The writer: start-up and send goroutines\<close>

lemma apply_defaults_fields [simp]:
  "buff (apply_defaults w) = buff w" "requestDoneCh (apply_defaults w) = requestDoneCh w"
  "chunkSliceCache (apply_defaults w) = chunkSliceCache w" "tasks (apply_defaults w) = tasks w"
  "requestsActive (apply_defaults w) = requestsActive w" "totalWaiting (apply_defaults w) = totalWaiting w"
  "loop (apply_defaults w) = loop w" "shutdownFlag (apply_defaults w) = shutdownFlag w"
  by (simp_all add: apply_defaults_def Let_def)

lemma apply_defaults_config:
  "MaxBuffered (apply_defaults w) = (if MaxBuffered w = 0 then DefaultInstanceMaxBuffered else MaxBuffered w)"
  "MaxRequests (apply_defaults w) = (if MaxRequests w = 0 then DefaultInstanceMaxRequests else MaxRequests w)"
  "MaxBatchSize (apply_defaults w) = (if MaxBatchSize w = 0 then DefaultInstanceMaxBatchSize else MaxBatchSize w)"
  by (simp_all add: apply_defaults_def Let_def)

lemma apply_defaults_nonzero:
  "MaxBuffered (apply_defaults w) \<noteq> 0" "MaxRequests (apply_defaults w) \<noteq> 0"
  "MaxBatchSize (apply_defaults w) \<noteq> 0"
  by (simp_all add: apply_defaults_config DefaultInstanceMaxBuffered_def
      DefaultInstanceMaxRequests_def DefaultInstanceMaxBatchSize_def)

lemma sint_pos_of_nonneg:
  assumes "x \<noteq> 0" "\<not> sint x < 0"
  shows "0 < sint (x :: 64 word)"
proof -
  have "sint x \<noteq> 0" using assms(1) by (simp add: signed_eq_0_iff)
  then show ?thesis using assms(2) by linarith
qed

lemma run_init_inv:
  fixes w :: "'a InstanceWriter"
  assumes f: "fresh w" and r: "run_init w = Inr w'"
  shows "writer_inv w'" and "loop w' = loop w" and "shutdownFlag w' = shutdownFlag w"
    and "tasks w' = []" and "requestDoneCh w' = []"
    and "MaxBuffered w' = MaxBuffered (apply_defaults w)"
    and "MaxRequests w' = MaxRequests (apply_defaults w)"
    and "MaxBatchSize w' = MaxBatchSize (apply_defaults w)"
proof -
  let ?d = "apply_defaults w"
  from r obtain b :: "'a InstanceRingBuffer" where nb: "NewInstanceRingBuffer (sint (MaxBuffered ?d)) = Inr b"
    by (auto simp: run_init_def Let_def split: sum.splits)
  from r nb have nn: "\<not> sint (MaxRequests ?d) < 0" "\<not> sint (MaxBatchSize ?d) < 0"
    by (auto simp: run_init_def Let_def split: if_splits)
  from r nb nn have w': "w' = ?d\<lparr>buff := Some b,
       chunkSliceCache := replicate (nat (sint (MaxRequests ?d))) (make_chunk (nat (sint (MaxBatchSize ?d)))),
       requestDoneCh := []\<rparr>"
    by (simp add: run_init_def Let_def)
  have pos: "0 < sint (MaxRequests ?d)" "0 < sint (MaxBatchSize ?d)"
    using nn apply_defaults_nonzero [of w] by (simp_all add: sint_pos_of_nonneg)
  from nb have cpos: "0 < sint (MaxBuffered ?d)"
    by (simp add: NewInstanceRingBuffer_def split: if_splits)
  note nw = rb_wf_New [OF nb]
  show "writer_inv w'"
    unfolding w'
    by (rule writer_invI [where b = b])
      (use f nw pos cpos in \<open>auto simp: fresh_def chunk_ok_make\<close>)
  show "loop w' = loop w" "shutdownFlag w' = shutdownFlag w" "tasks w' = []" "requestDoneCh w' = []"
    "MaxBuffered w' = MaxBuffered ?d" "MaxRequests w' = MaxRequests ?d" "MaxBatchSize w' = MaxBatchSize ?d"
    using f by (simp_all add: w' fresh_def)
qed

lemma filter_update_length:
  assumes "i < length xs"
  shows "length (filter P (xs[i := y])) + (if P (xs ! i) then 1 else 0)
       = length (filter P xs) + (if P y then 1 else 0)"
  using assms
proof (induction xs arbitrary: i)
  case Nil
  then show ?case by simp
next
  case (Cons x xs)
  then show ?case by (cases i) auto
qed

lemma filter_remove_length:
  assumes "i < length xs"
  shows "length (filter P (take i xs @ drop (Suc i) xs)) + (if P (xs ! i) then 1 else 0)
       = length (filter P xs)"
proof -
  have "xs = take i xs @ xs ! i # drop (Suc i) xs" using assms by (rule id_take_nth_drop)
  then have "filter P xs = filter P (take i xs @ xs ! i # drop (Suc i) xs)" by simp
  then show ?thesis by (simp del: append_take_drop_id)
qed

lemma set_remove_subset: "set (take i xs @ drop (Suc i) xs) \<subseteq> set xs"
  by (auto dest: in_set_takeD in_set_dropD)

lemma sink_returns_inv:
  assumes inv: "writer_inv w" and i: "i < length (tasks w)" and ph: "task_phase (tasks w ! i) = InSink"
  shows "writer_inv (sink_returns i err w)"
proof -
  note d = writer_invD [OF inv]
  from writer_invD(8) [OF inv] obtain b where b: "buff w = Some b" ..
  note bd = writer_inv_buffD [OF inv b]
  let ?t = "(tasks w ! i)\<lparr>task_phase := SinkReturned\<rparr>"
  have h: "length (filter holds_slice ((tasks w)[i := ?t])) = length (filter holds_slice (tasks w))"
    using filter_update_length [OF i, of holds_slice ?t] ph by (simp add: holds_slice_def)
  have m: "int (length (arr (task_chunk t))) = sint (MaxBatchSize w) \<and> chunk_ok (task_chunk t)
           \<and> task_count t = of_nat (len (task_chunk t))" if "t \<in> set ((tasks w)[i := ?t])" for t
  proof -
    from that set_update_subset_insert [of "tasks w" i ?t] have "t = ?t \<or> t \<in> set (tasks w)" by auto
    then show ?thesis using d(7) [of t] d(7) [of "tasks w ! i"] i by auto
  qed
  show ?thesis
  proof (cases err)
    case True
    show ?thesis
      by (rule writer_invI [where b = b])
        (use True b bd d h m in \<open>simp_all add: sink_returns_def Let_def\<close>)
  next
    case False
    show ?thesis
      by (rule writer_invI [where b = b])
        (use False b bd d h m in \<open>simp_all add: sink_returns_def Let_def\<close>)
  qed
qed

lemma return_slice_inv:
  assumes inv: "writer_inv w" and i: "i < length (tasks w)" and ph: "task_phase (tasks w ! i) = SinkReturned"
  shows "\<exists>w'. return_slice i w = Inr w' \<and> writer_inv w' \<and> loop w' = loop w
           \<and> shutdownFlag w' = shutdownFlag w \<and> length (tasks w') = length (tasks w)
           \<and> requestDoneCh w' = requestDoneCh w
           \<and> MaxBuffered w' = MaxBuffered w \<and> MaxRequests w' = MaxRequests w
           \<and> MaxBatchSize w' = MaxBatchSize w"
proof -
  note d = writer_invD [OF inv]
  from writer_invD(8) [OF inv] obtain b where b: "buff w = Some b" ..
  note bd = writer_inv_buffD [OF inv b]
  let ?t = "(tasks w ! i)\<lparr>task_phase := SliceReturned\<rparr>"
  let ?w = "w\<lparr>chunkSliceCache := chunkSliceCache w @ [task_chunk (tasks w ! i)],
               tasks := (tasks w)[i := ?t]\<rparr>"
  have h: "length (filter holds_slice ((tasks w)[i := ?t])) + 1 = length (filter holds_slice (tasks w))"
    using filter_update_length [OF i, of holds_slice ?t] ph by (simp add: holds_slice_def)
  then have "int (length (chunkSliceCache w)) < sint (MaxRequests w)" using d(5) by linarith
  then have r: "return_slice i w = Inr ?w" by (simp add: return_slice_def Let_def)
  have m: "int (length (arr (task_chunk t))) = sint (MaxBatchSize w) \<and> chunk_ok (task_chunk t)
           \<and> task_count t = of_nat (len (task_chunk t))" if "t \<in> set ((tasks w)[i := ?t])" for t
  proof -
    from that set_update_subset_insert [of "tasks w" i ?t] have "t = ?t \<or> t \<in> set (tasks w)" by auto
    then show ?thesis using d(7) [of t] d(7) [of "tasks w ! i"] i by auto
  qed
  have c: "int (length (arr s)) = sint (MaxBatchSize w) \<and> chunk_ok s"
    if "s \<in> set (chunkSliceCache w @ [task_chunk (tasks w ! i)])" for s
    using that d(6) [of s] d(7) [of "tasks w ! i"] i by auto
  have "writer_inv ?w"
    by (rule writer_invI [where b = b]) (use b bd d h m c in simp_all)
  then show ?thesis using r by simp
qed

lemma signal_done_inv:
  assumes inv: "writer_inv w" and i: "i < length (tasks w)" and ph: "task_phase (tasks w ! i) = SliceReturned"
  shows "\<exists>w'. signal_done i w = Inr w' \<and> writer_inv w' \<and> loop w' = loop w
           \<and> shutdownFlag w' = shutdownFlag w
           \<and> MaxBuffered w' = MaxBuffered w \<and> MaxRequests w' = MaxRequests w
           \<and> MaxBatchSize w' = MaxBatchSize w"
proof -
  note d = writer_invD [OF inv]
  from writer_invD(8) [OF inv] obtain b where b: "buff w = Some b" ..
  note bd = writer_inv_buffD [OF inv b]
  let ?ts = "take i (tasks w) @ drop (Suc i) (tasks w)"
  let ?w = "w\<lparr>requestDoneCh := requestDoneCh w @ [task_count (tasks w ! i)], tasks := ?ts\<rparr>"
  have h: "length (filter holds_slice ?ts) = length (filter holds_slice (tasks w))"
    using filter_remove_length [OF i, of holds_slice] ph by (simp add: holds_slice_def)
  have l: "length ?ts + 1 = length (tasks w)" using i by simp
  have "int (length (requestDoneCh w)) < sint (MaxRequests w)" using d(3,4) i by linarith
  then have r: "signal_done i w = Inr ?w" by (simp add: signal_done_def Let_def)
  have m: "int (length (arr (task_chunk t))) = sint (MaxBatchSize w) \<and> chunk_ok (task_chunk t)
           \<and> task_count t = of_nat (len (task_chunk t))" if "t \<in> set ?ts" for t
    using that set_remove_subset [of i "tasks w"] d(7) [of t] by auto
  have e: "sint (requestsActive w) = int (length ?ts) + int (length (requestDoneCh w @ [task_count (tasks w ! i)]))"
    using d(3) l by simp
  have "writer_inv ?w"
    by (rule writer_invI [where b = b]) (use b bd d h m e in \<open>simp_all del: length_append\<close>)
  then show ?thesis using r by simp
qed


section \<open>The writer: the invariant holds in every reachable state\<close>

lemma system_inv_started: "system_inv w \<Longrightarrow> started w \<Longrightarrow> writer_inv w"
  by (cases "loop w") (simp_all add: system_inv_def started_def)

lemma system_inv_tasks: "system_inv w \<Longrightarrow> i < length (tasks w) \<Longrightarrow>
   (loop w = Running \<or> loop w = Draining \<or> loop w = Waiting) \<and> shutdownFlag w = Some Open \<and> writer_inv w"
  by (cases "loop w") (auto simp: system_inv_def fresh_def)

lemma system_inv_live:
  assumes "writer_inv w'" "shutdownFlag w' = Some Open"
    "loop w' = Running \<or> loop w' = Draining \<or> loop w' = Waiting"
  shows "system_inv w'"
  using assms by (auto simp: system_inv_def)

lemma sink_returns_fields [simp]:
  "loop (sink_returns i err w) = loop w" "shutdownFlag (sink_returns i err w) = shutdownFlag w"
  "MaxBuffered (sink_returns i err w) = MaxBuffered w" "MaxRequests (sink_returns i err w) = MaxRequests w"
  "MaxBatchSize (sink_returns i err w) = MaxBatchSize w" "buff (sink_returns i err w) = buff w"
  "requestDoneCh (sink_returns i err w) = requestDoneCh w"
  "chunkSliceCache (sink_returns i err w) = chunkSliceCache w"
  "requestsActive (sink_returns i err w) = requestsActive w"
  "totalWaiting (sink_returns i err w) = totalWaiting w"
  "TotalInFlight (sink_returns i err w) = TotalInFlight w"
  "length (tasks (sink_returns i err w)) = length (tasks w)"
  by (simp_all add: sink_returns_def Let_def)

lemma wstep_inv:
  assumes "wstep w w'" "system_inv w"
  shows "system_inv w'"
  using assms
proof (cases rule: wstep.cases)
  case st_start
  then show ?thesis using assms(2) by (simp add: system_inv_def Start_def fresh_def)
next
  case (st_init v)
  then have f: "fresh w" and o: "shutdownFlag w = Some Open"
    using assms(2) by (simp_all add: system_inv_def)
  from run_init_inv(1,3) [OF f st_init(3)] o show ?thesis
    unfolding st_init(1) by (simp add: system_inv_def)
next
  case (st_receive n)
  then show ?thesis using assms(2) by (auto simp: system_inv_def)
next
  case (st_instance inst)
  then have inv: "writer_inv w" and o: "shutdownFlag w = Some Open"
    using assms(2) by (auto simp: system_inv_def)
  from processOne_inv [OF inv, of inst] st_instance o show ?thesis
    by (auto intro: system_inv_live)
next
  case (st_done c rest)
  then have inv: "writer_inv w" and o: "shutdownFlag w = Some Open"
    using assms(2) by (auto simp: system_inv_def)
  from handleRequestDone_inv [OF inv st_done(2)] st_done o show ?thesis
    by (auto intro: system_inv_live)
next
  case st_flush
  then have inv: "writer_inv w" and o: "shutdownFlag w = Some Open"
    using assms(2) by (auto simp: system_inv_def)
  from tryToSendChunk_inv [OF inv] st_flush o show ?thesis
    by (auto intro: system_inv_live)
next
  case st_cancel
  then show ?thesis using assms(2) by (auto simp: system_inv_def)
next
  case (st_drained v)
  then have inv: "writer_inv w" and o: "shutdownFlag w = Some Open"
    using assms(2) by (auto simp: system_inv_def)
  from tryToSendChunk_inv [OF inv] st_drained o show ?thesis
    by (auto simp: system_inv_def)
next
  case st_exit
  then have inv: "writer_inv w" using assms(2) by (auto simp: system_inv_def)
  from st_exit(3) have "sint (requestsActive w) \<le> 0" by (simp add: word_sless_alt)
  with writer_invD(3) [OF inv] have "length (tasks w) = 0 \<and> length (requestDoneCh w) = 0" by linarith
  then have "tasks w = []" "requestDoneCh w = []" by simp_all
  then show ?thesis using inv st_exit(1) by (simp add: system_inv_def)
next
  case (st_sink i err)
  from system_inv_tasks [OF assms(2) st_sink(2)] sink_returns_inv [OF _ st_sink(2,3), of err]
  show ?thesis unfolding st_sink(1) by (intro system_inv_live) auto
next
  case (st_slice i)
  from system_inv_tasks [OF assms(2) st_slice(1)] return_slice_inv [OF _ st_slice(1,2)] st_slice(3)
  show ?thesis by (intro system_inv_live) auto
next
  case (st_signal i)
  from system_inv_tasks [OF assms(2) st_signal(1)] signal_done_inv [OF _ st_signal(1,2)] st_signal(3)
  show ?thesis by (intro system_inv_live) auto
qed

lemma new_writer_inv: "system_inv (new_writer pre ow a b c)"
  by (simp add: system_inv_def new_writer_def fresh_def)

lemma reachable_inv: "reachable w \<Longrightarrow> system_inv w"
  by (induction rule: reachable.induct) (auto intro: new_writer_inv wstep_inv)


section \<open>The writer: released slots and whole input batches\<close>

lemma circ_inj:
  fixes r c i j :: nat
  assumes "i < j" "j < c"
  shows "(r + i) mod c \<noteq> (r + j) mod c"
proof
  assume e: "(r + i) mod c = (r + j) mod c"
  let ?r = "(r + i) mod c"
  have "(?r + (j - i)) mod c = (r + i + (j - i)) mod c" by (rule mod_add_left_eq)
  also have "\<dots> = ?r" using assms e by simp
  finally have wr: "(?r + (j - i)) mod c = ?r" .
  have "?r < c" using assms by simp
  from circ_shift_neq [OF this, of "j - i"] wr assms show False by simp
qed

lemma fold_clear_nth:
  "q \<notin> set ps \<Longrightarrow> fold (\<lambda>p s. s[p := None]) ps xs ! q = xs ! q"
  by (induction ps arbitrary: xs) auto

lemma chunk_clear_pending:
  assumes wf: "rb_wf b"
  shows "pending (chunk_clear (fst (NextBatch m b)) (snd (NextBatch m b))) = pending (snd (NextBatch m b))"
proof -
  let ?c = "length (slots b)"
  let ?n = "batch_size m b"
  let ?ps = "fst (NextBatch m b)"
  let ?b1 = "snd (NextBatch m b)"
  note le = batch_size_le [of m b]
  have ps: "?ps = [readIdx b ..< readIdx b + ?n]" by (simp add: NextBatch_def Let_def)
  have b1: "readIdx ?b1 = (readIdx b + ?n) mod ?c" "unprocessed ?b1 = unprocessed b - ?n"
    "slots ?b1 = slots b" by (simp_all add: NextBatch_def Let_def)
  have out: "(readIdx ?b1 + j) mod ?c \<notin> set ?ps" if j: "j < unprocessed ?b1" for j
  proof
    assume "(readIdx ?b1 + j) mod ?c \<in> set ?ps"
    then obtain i where i: "i < ?n" "(readIdx ?b1 + j) mod ?c = readIdx b + i"
      unfolding ps by (auto simp: nat_le_iff_add)
    have "readIdx b + i < ?c" using i(1) le(3) by linarith
    then have ri: "(readIdx b + i) mod ?c = readIdx b + i" by simp
    have "(readIdx ?b1 + j) mod ?c = (readIdx b + ?n + j) mod ?c"
      unfolding b1 by (rule mod_add_left_eq)
    then have e: "(readIdx b + i) mod ?c = (readIdx b + (?n + j)) mod ?c"
      using i(2) ri by (simp add: add.assoc)
    have "?n + j < unprocessed b" using j unfolding b1 by linarith
    moreover have "unprocessed b \<le> ?c" using wf by (simp add: rb_wf_def)
    ultimately have "?n + j < ?c" by linarith
    from circ_inj [of i "?n + j" ?c "readIdx b"] i(1) this e show False by simp
  qed
  show ?thesis
    unfolding pending_def chunk_clear_simps
    by (rule map_cong [OF refl]) (use out in \<open>simp add: chunk_clear_def fold_clear_nth b1(3)\<close>)
qed

lemma processLoop_inv:
  assumes "writer_inv w"
  shows "\<exists>w'. processLoop insts w = Inr w' \<and> writer_inv w' \<and> loop w' = loop w
           \<and> shutdownFlag w' = shutdownFlag w
           \<and> MaxBuffered w' = MaxBuffered w \<and> MaxRequests w' = MaxRequests w
           \<and> MaxBatchSize w' = MaxBatchSize w"
  using assms
proof (induction insts arbitrary: w)
  case Nil
  then show ?case by simp
next
  case (Cons x insts)
  from processOne_inv [OF Cons.prems, of x] obtain w1 where w1: "processOne x w = Inr w1" "writer_inv w1"
    "loop w1 = loop w" "shutdownFlag w1 = shutdownFlag w" "MaxBuffered w1 = MaxBuffered w"
    "MaxRequests w1 = MaxRequests w" "MaxBatchSize w1 = MaxBatchSize w" by blast
  from Cons.IH [OF w1(2)] w1 show ?case by auto
qed

lemma processLoop_reachable:
  assumes "reachable w" "loop w = Running \<or> loop w = Draining" "processLoop insts w = Inr w'"
  shows "reachable w'"
  using assms
proof (induction insts arbitrary: w)
  case Nil
  then show ?case by simp
next
  case (Cons x insts)
  from Cons.prems(3) obtain w1 where w1: "processOne x w = Inr w1" "processLoop insts w1 = Inr w'"
    by (auto split: sum.splits)
  have r1: "reachable w1" by (rule r_step [OF Cons.prems(1) st_instance [OF Cons.prems(2) w1(1)]])
  have "writer_inv w" using reachable_inv [OF Cons.prems(1)] Cons.prems(2) by (auto simp: system_inv_def)
  from processOne_inv [OF this, of x] w1(1) have "loop w1 = loop w" by auto
  with Cons.IH [OF r1 _ w1(2)] Cons.prems(2) show ?case by simp
qed

lemma processInput_accepts:
  assumes r: "reachable w" and l: "loop w = Running \<or> loop w = Draining"
  shows "\<exists>w'. processInput insts w = Inr w' \<and> reachable w' \<and> loop w' = loop w"
proof -
  let ?w0 = "w\<lparr>TotalReceived := TotalReceived w + of_nat (length insts)\<rparr>"
  have r0: "reachable ?w0" by (rule r_step [OF r st_receive [OF l]])
  have "writer_inv w" using reachable_inv [OF r] l by (auto simp: system_inv_def)
  then have "writer_inv ?w0" by simp
  from processLoop_inv [OF this, of insts] obtain w' where w': "processLoop insts ?w0 = Inr w'"
    "loop w' = loop ?w0" by blast
  have "reachable w'" by (rule processLoop_reachable [OF r0 _ w'(1)]) (use l in simp)
  then show ?thesis using w' by (simp add: processInput_def)
qed


section \<open>The writer: what the coordinating goroutine keeps\<close>

lemma coord_frame_refl: "coord_frame w w"
  by (simp add: coord_frame_def)

lemma coord_frame_trans: "coord_frame w w' \<Longrightarrow> coord_frame w' w'' \<Longrightarrow> coord_frame w w''"
  by (auto simp: coord_frame_def)

lemma coord_frame_update [simp]:
  "coord_frame w (w'\<lparr>TotalFilteredOut := a\<rparr>) = coord_frame w w'"
  "coord_frame w (w'\<lparr>TotalOverwritten := a\<rparr>) = coord_frame w w'"
  "coord_frame w (w'\<lparr>overwriteCalls := k\<rparr>) = coord_frame w w'"
  "coord_frame w (w'\<lparr>TotalInFlight := a\<rparr>) = coord_frame w w'"
  "coord_frame w (w'\<lparr>requestsActive := a\<rparr>) = coord_frame w w'"
  "coord_frame w (w'\<lparr>requestDoneCh := q\<rparr>) = coord_frame w w'"
  "coord_frame w (w'\<lparr>buff := bf\<rparr>) = coord_frame w w'"
  "coord_frame (w\<lparr>TotalFilteredOut := a\<rparr>) w' = coord_frame w w'"
  "coord_frame (w\<lparr>TotalOverwritten := a\<rparr>) w' = coord_frame w w'"
  "coord_frame (w\<lparr>overwriteCalls := k\<rparr>) w' = coord_frame w w'"
  "coord_frame (w\<lparr>TotalInFlight := a\<rparr>) w' = coord_frame w w'"
  "coord_frame (w\<lparr>requestsActive := a\<rparr>) w' = coord_frame w w'"
  "coord_frame (w\<lparr>requestDoneCh := q\<rparr>) w' = coord_frame w w'"
  "coord_frame (w\<lparr>buff := bf\<rparr>) w' = coord_frame w w'"
  by (simp_all add: coord_frame_def)

lemma waiting_unprocessed:
  assumes inv: "writer_inv w" and b: "buff w = Some b" and wt: "0 <s totalWaiting w"
  shows "0 < unprocessed b"
proof (rule ccontr)
  assume "\<not> 0 < unprocessed b"
  then have "totalWaiting w = 0" using writer_inv_buffD(3) [OF inv b] by simp
  with wt show False by (simp add: word_sless_alt)
qed

lemma recorded_positive:
  assumes inv: "writer_inv w" and b: "buff w = Some b" and pos: "0 < unprocessed b"
  shows "0 <s (of_nat (unprocessed b) :: 64 word)"
proof -
  have "int (unprocessed b) \<le> sint (MaxBuffered w)"
    using writer_inv_buffD(1,2) [OF inv b] by (simp add: rb_wf_def Size_def)
  then have "sint (of_nat (unprocessed b) :: 64 word) = int (unprocessed b)"
    by (rule sint_of_nat_64)
  then show ?thesis using pos by (simp add: word_sless_alt)
qed

text \<open>
  \<open>tryToSendChunk\<close> moves instances from the buffer into a batch or leaves them where
  they are; it never takes any out of the writer's hands.
\<close>

lemma tryToSendChunk_keeps:
  assumes inv: "writer_inv w" and b: "buff w = Some b" and t: "tryToSendChunk w = Inr w'"
  shows "coord_frame w w'" and "in_hand w' = in_hand w"
    and "TotalFilteredOut w' = TotalFilteredOut w"
    and "\<exists>b'. buff w' = Some b' \<and> unprocessed b' \<le> unprocessed b \<and> Size b' = Size b"
proof -
  note bd = writer_inv_buffD [OF inv b]
  have "coord_frame w w' \<and> in_hand w' = in_hand w \<and> TotalFilteredOut w' = TotalFilteredOut w
      \<and> (\<exists>b'. buff w' = Some b' \<and> unprocessed b' \<le> unprocessed b \<and> Size b' = Size b)"
  proof (cases "MaxRequests w \<le>s requestsActive w")
    case True
    from tryToSendChunk_limit [OF b True] t
    have w': "w' = w\<lparr>totalWaiting := of_nat (UnprocessedCount b)\<rparr>" by simp
    have "0 <s totalWaiting w \<longrightarrow> 0 <s (of_nat (unprocessed b) :: 64 word)"
      using waiting_unprocessed [OF inv b] recorded_positive [OF inv b] by blast
    then show ?thesis using b by (simp add: w' coord_frame_def in_hand_def UnprocessedCount_def)
  next
    case room: False
    show ?thesis
    proof (cases "unprocessed b = 0")
      case True
      from tryToSendChunk_empty [OF b bd(1) room True] t have "w' = w" by simp
      then show ?thesis using b by (simp add: coord_frame_refl)
    next
      case False
      then have pos: "0 < unprocessed b" by simp
      from cache_nonempty [OF inv room] obtain sl rest where c: "chunkSliceCache w = sl # rest"
        by (cases "chunkSliceCache w") auto
      let ?m = "sint (MaxBatchSize w)"
      let ?n = "batch_size ?m b"
      let ?b2 = "chunk_clear (fst (NextBatch ?m b)) (snd (NextBatch ?m b))"
      note dp = tryToSendChunk_dispatch [OF inv b room pos c refl]
      have sl: "int (length (arr sl)) = ?m" "chunk_ok sl" using writer_invD(6) [OF inv, of sl] c by simp_all
      have nle: "?n \<le> length (arr sl)"
        using sl(1) writer_invD(2) [OF inv] batch_size_le(1) [of ?m b] by linarith
      have ok1: "chunk_ok ((nil_above ?n sl)\<lparr>len := ?n\<rparr>)" by (rule chunk_ok_getChunk [OF sl(2) nle])
      have lt: "length (take ?n (pending b)) = len ((nil_above ?n sl)\<lparr>len := ?n\<rparr>)"
        using batch_size_le(2) [of ?m b] by (simp add: length_pending)
      have el: "elems (copy_slice ((nil_above ?n sl)\<lparr>len := ?n\<rparr>) (take ?n (pending b))) = take ?n (pending b)"
        by (rule chunk_ok_copy(4) [OF ok1 lt])
      have pb: "pending ?b2 = drop ?n (pending b)"
        using chunk_clear_pending [OF bd(1), of ?m] NextBatch_view(2) [OF bd(1), of ?m] by simp
      have un: "unprocessed ?b2 = unprocessed b - ?n"
        using NextBatch_view(3) [OF bd(1), of ?m] by simp
      have sz: "Size ?b2 = Size b" by (simp add: Size_def NextBatch_def Let_def)
      from dp(1) t have w': "w' = w\<lparr>buff := Some ?b2,
            TotalInFlight := TotalInFlight w + of_nat ?n,
            requestsActive := requestsActive w + 1,
            chunkSliceCache := rest,
            tasks := tasks w @ [\<lparr>task_chunk = copy_slice ((nil_above ?n sl)\<lparr>len := ?n\<rparr>) (take ?n (pending b)),
                                 task_count = of_nat ?n, task_phase = InSink\<rparr>],
            totalWaiting := of_nat (unprocessed b - ?n)\<rparr>" by simp
      show ?thesis
        unfolding w' using b el pb un sz by (simp add: coord_frame_def in_hand_def)
    qed
  qed
  then show "coord_frame w w'" and "in_hand w' = in_hand w"
    and "TotalFilteredOut w' = TotalFilteredOut w"
    and "\<exists>b'. buff w' = Some b' \<and> unprocessed b' \<le> unprocessed b \<and> Size b' = Size b"
    by blast+
qed

lemma completion_taken:
  assumes inv: "writer_inv w" and ch: "requestDoneCh w = c # rest"
  shows "writer_inv (w\<lparr>requestDoneCh := rest, requestsActive := requestsActive w - 1,
                       TotalInFlight := TotalInFlight w - c\<rparr>)"
    and "sint (requestsActive w - 1) = sint (requestsActive w) - 1"
proof -
  note d = writer_invD [OF inv]
  from d(8) obtain b where b: "buff w = Some b" ..
  note bd = writer_inv_buffD [OF inv b]
  have "0 < sint (requestsActive w)" using d(3) ch by simp
  then show ra: "sint (requestsActive w - 1) = sint (requestsActive w) - 1" by (rule sint_pred)
  show "writer_inv (w\<lparr>requestDoneCh := rest, requestsActive := requestsActive w - 1,
                       TotalInFlight := TotalInFlight w - c\<rparr>)"
    by (rule writer_invI [where b = b]) (use b bd d ra ch in simp_all)
qed

lemma in_hand_update [simp]:
  "in_hand (w\<lparr>requestDoneCh := q\<rparr>) = in_hand w"
  "in_hand (w\<lparr>requestsActive := a\<rparr>) = in_hand w"
  "in_hand (w\<lparr>TotalInFlight := a\<rparr>) = in_hand w"
  "in_hand (w\<lparr>TotalReceived := a\<rparr>) = in_hand w"
  "in_hand (w\<lparr>TotalFilteredOut := a\<rparr>) = in_hand w"
  "in_hand (w\<lparr>TotalOverwritten := a\<rparr>) = in_hand w"
  "in_hand (w\<lparr>TotalFailedToSend := a\<rparr>) = in_hand w"
  "in_hand (w\<lparr>TotalSent := a\<rparr>) = in_hand w"
  "in_hand (w\<lparr>overwriteCalls := k\<rparr>) = in_hand w"
  by (simp_all add: in_hand_def)

lemma handleRequestDone_keeps:
  assumes inv: "writer_inv w" and b: "buff w = Some b" and ch: "requestDoneCh w = c # rest"
    and h: "handleRequestDone c (w\<lparr>requestDoneCh := rest\<rparr>) = Inr w'"
  shows "coord_frame w w'" and "in_hand w' = in_hand w"
    and "TotalFilteredOut w' = TotalFilteredOut w"
    and "\<exists>b'. buff w' = Some b' \<and> unprocessed b' \<le> unprocessed b \<and> Size b' = Size b"
proof -
  let ?w1 = "w\<lparr>requestDoneCh := rest, requestsActive := requestsActive w - 1,
               TotalInFlight := TotalInFlight w - c\<rparr>"
  have inv1: "writer_inv ?w1" by (rule completion_taken(1) [OF inv ch])
  have b1: "buff ?w1 = Some b" using b by simp
  have e: "handleRequestDone c (w\<lparr>requestDoneCh := rest\<rparr>)
            = (if 0 <s totalWaiting w then tryToSendChunk ?w1 else Inr ?w1)"
    by (simp add: handleRequestDone_def Let_def)
  have "coord_frame w w' \<and> in_hand w' = in_hand w \<and> TotalFilteredOut w' = TotalFilteredOut w
      \<and> (\<exists>b'. buff w' = Some b' \<and> unprocessed b' \<le> unprocessed b \<and> Size b' = Size b)"
  proof (cases "0 <s totalWaiting w")
    case True
    with e h have t: "tryToSendChunk ?w1 = Inr w'" by simp
    from tryToSendChunk_keeps [OF inv1 b1 t] show ?thesis by simp
  next
    case False
    with e h have "w' = ?w1" by simp
    then show ?thesis using b by (simp add: coord_frame_refl)
  qed
  then show "coord_frame w w'" and "in_hand w' = in_hand w"
    and "TotalFilteredOut w' = TotalFilteredOut w"
    and "\<exists>b'. buff w' = Some b' \<and> unprocessed b' \<le> unprocessed b \<and> Size b' = Size b"
    by blast+
qed

lemma pollRequestDone_keeps:
  assumes inv: "writer_inv w" and b: "buff w = Some b" and p: "pollRequestDone w = Inr w'"
  shows "coord_frame w w'" and "in_hand w' = in_hand w"
    and "TotalFilteredOut w' = TotalFilteredOut w"
    and "\<exists>b'. buff w' = Some b' \<and> unprocessed b' \<le> unprocessed b \<and> Size b' = Size b"
proof -
  have "coord_frame w w' \<and> in_hand w' = in_hand w \<and> TotalFilteredOut w' = TotalFilteredOut w
      \<and> (\<exists>b'. buff w' = Some b' \<and> unprocessed b' \<le> unprocessed b \<and> Size b' = Size b)"
  proof (cases "requestDoneCh w")
    case Nil
    with p have "w' = w" by (simp add: pollRequestDone_def)
    then show ?thesis using b by (simp add: coord_frame_refl)
  next
    case (Cons c rest)
    with p have "handleRequestDone c (w\<lparr>requestDoneCh := rest\<rparr>) = Inr w'"
      by (simp add: pollRequestDone_def)
    from handleRequestDone_keeps [OF inv b Cons this] show ?thesis by simp
  qed
  then show "coord_frame w w'" and "in_hand w' = in_hand w"
    and "TotalFilteredOut w' = TotalFilteredOut w"
    and "\<exists>b'. buff w' = Some b' \<and> unprocessed b' \<le> unprocessed b \<and> Size b' = Size b"
    by blast+
qed

lemma processOne_filtered:
  assumes "case PreprocessFunc w of None \<Rightarrow> False | Some f \<Rightarrow> \<not> f inst"
  shows "processOne inst w = Inr (w\<lparr>TotalFilteredOut := TotalFilteredOut w + 1\<rparr>)"
  using assms by (simp add: processOne_def)

lemma processOne_keeps:
  assumes inv: "writer_inv w" and b: "buff w = Some b" and p: "processOne inst w = Inr w'"
    and acc: "\<not> (case PreprocessFunc w of None \<Rightarrow> False | Some f \<Rightarrow> \<not> f inst)"
  shows "coord_frame w w'" and "TotalFilteredOut w' = TotalFilteredOut w"
    and "unprocessed b \<noteq> Size b \<Longrightarrow>
           in_hand w' = in_hand w @ [inst]
         \<and> (\<exists>b'. buff w' = Some b' \<and> unprocessed b' \<le> unprocessed b + 1 \<and> Size b' = Size b)"
proof -
  note bd = writer_inv_buffD [OF inv b]
  note d = writer_invD [OF inv]
  let ?b1 = "snd (Add inst b)"
  let ?w1 = "w\<lparr>buff := Some ?b1\<rparr>"
  let ?w2 = "if fst (Add inst b)
             then ?w1\<lparr>TotalOverwritten := TotalOverwritten ?w1 + 1,
                      overwriteCalls := overwriteCalls ?w1 + (if OverwriteFunc ?w1 then 1 else 0)\<rparr>
             else ?w1"
  have inv1: "writer_inv ?w1"
    by (rule writer_invI [where b = ?b1])
      (use b bd d Add_wf [OF bd(1), of inst] Add_unprocessed_pos [OF bd(1), of inst] in \<open>simp_all add: Add_Size\<close>)
  then have inv2: "writer_inv ?w2" by simp
  have b2: "buff ?w2 = Some ?b1" by simp
  have f2: "coord_frame w ?w2" by (simp add: coord_frame_refl)
  have t2: "TotalFilteredOut ?w2 = TotalFilteredOut w" by simp
  from pollRequestDone_inv [OF inv2] obtain w3 where w3: "pollRequestDone ?w2 = Inr w3" "writer_inv w3"
    by blast
  note k3 = pollRequestDone_keeps [OF inv2 b2 w3(1)]
  from k3(4) obtain b3 where b3: "buff w3 = Some b3" "unprocessed b3 \<le> unprocessed ?b1" "Size b3 = Size ?b1"
    by blast
  have e: "processOne inst w =
      (if sint (MaxBatchSize w3) \<le> int (UnprocessedCount b3) then tryToSendChunk w3 else Inr w3)"
    using acc b w3(1) b3(1) by (simp add: processOne_def split_beta Let_def)
  have last: "coord_frame w3 w' \<and> in_hand w' = in_hand w3 \<and> TotalFilteredOut w' = TotalFilteredOut w3
      \<and> (\<exists>b'. buff w' = Some b' \<and> unprocessed b' \<le> unprocessed b3 \<and> Size b' = Size b3)"
  proof (cases "sint (MaxBatchSize w3) \<le> int (UnprocessedCount b3)")
    case True
    with e p have "tryToSendChunk w3 = Inr w'" by simp
    from tryToSendChunk_keeps [OF w3(2) b3(1) this] show ?thesis by simp
  next
    case False
    with e p have "w' = w3" by simp
    then show ?thesis using b3(1) by (simp add: coord_frame_refl)
  qed
  show "coord_frame w w'"
    using coord_frame_trans [OF coord_frame_trans [OF f2 k3(1)]] last by blast
  show "TotalFilteredOut w' = TotalFilteredOut w" using last k3(3) t2 by simp
  show "in_hand w' = in_hand w @ [inst]
         \<and> (\<exists>b'. buff w' = Some b' \<and> unprocessed b' \<le> unprocessed b + 1 \<and> Size b' = Size b)"
    if room: "unprocessed b \<noteq> Size b"
  proof -
    have pa: "pending ?b1 = pending b @ [inst]" by (rule pending_Add_room(2) [OF bd(1) room])
    then have "length (pending ?b1) = length (pending b @ [inst])" by simp
    then have u1: "unprocessed ?b1 = unprocessed b + 1" by (simp add: length_pending)
    have "in_hand ?w2 = in_hand w @ [inst]" using b pa by (simp add: in_hand_def)
    then have "in_hand w' = in_hand w @ [inst]" using last k3(2) by simp
    moreover from last obtain b' where "buff w' = Some b'" "unprocessed b' \<le> unprocessed b3" "Size b' = Size b3"
      by blast
    ultimately show ?thesis using b3 u1 by (simp add: Add_Size)
  qed
qed






text \<open>A recorded backlog stays recorded over every move that launches no send.\<close>

lemma wstep_keeps_waiting:
  assumes s: "wstep w w'" and inv: "system_inv w" and wt: "0 <s totalWaiting w"
    and q: "length (tasks w') \<le> length (tasks w)"
  shows "0 <s totalWaiting w'"
proof -
  have nf: "\<not> fresh w" using wt by (auto simp: fresh_def word_sless_alt)
  then have winv: "writer_inv w" using inv by (cases "loop w") (simp_all add: system_inv_def)
  from writer_invD(8) [OF winv] obtain b where b: "buff w = Some b" ..
  from s show ?thesis
  proof (cases rule: wstep.cases)
    case st_start
    then show ?thesis using wt by (simp add: Start_def)
  next
    case (st_init v)
    then show ?thesis using inv nf by (simp add: system_inv_def)
  next
    case (st_receive n)
    then show ?thesis using wt by simp
  next
    case (st_instance inst)
    show ?thesis
    proof (cases "case PreprocessFunc w of None \<Rightarrow> False | Some f \<Rightarrow> \<not> f inst")
      case True
      from processOne_filtered [OF True] st_instance(2) wt show ?thesis by auto
    next
      case False
      from processOne_keeps(1) [OF winv b st_instance(2) False] q wt show ?thesis
        by (simp add: coord_frame_def)
    qed
  next
    case (st_done c rest)
    from handleRequestDone_keeps(1) [OF winv b st_done(2,3)] q wt show ?thesis
      by (simp add: coord_frame_def)
  next
    case st_flush
    from tryToSendChunk_keeps(1) [OF winv b st_flush(2)] q wt show ?thesis
      by (simp add: coord_frame_def)
  next
    case st_cancel
    then show ?thesis using wt by simp
  next
    case (st_drained v)
    from tryToSendChunk_keeps(1) [OF winv b st_drained(3)] q wt st_drained(1) show ?thesis
      by (simp add: coord_frame_def)
  next
    case st_exit
    then show ?thesis using wt by simp
  next
    case (st_sink i err)
    then show ?thesis using wt by simp
  next
    case (st_slice i)
    then show ?thesis using wt by (auto simp: return_slice_def Let_def split: if_splits)
  next
    case (st_signal i)
    then show ?thesis using wt by (auto simp: signal_done_def Let_def split: if_splits)
  qed
qed

lemma quiet_keeps_waiting:
  assumes "quiet w w'" and "reachable w" and "0 <s totalWaiting w"
  shows "reachable w' \<and> 0 <s totalWaiting w'"
  using assms
proof (induction rule: quiet.induct)
  case (q_here w)
  then show ?case by simp
next
  case (q_move w w' w'')
  then have r: "reachable w'" and wt: "0 <s totalWaiting w'" by simp_all
  have "reachable w''" by (rule r_step [OF r q_move.hyps(2)])
  moreover have "0 <s totalWaiting w''"
    by (rule wstep_keeps_waiting [OF q_move.hyps(2) reachable_inv [OF r] wt q_move.hyps(3)])
  ultimately show ?case by simp
qed

section \<open>The run: its states are reachable\<close>

lemmas demo_defs = demo_new_def demo_idle_def demo_batch_def demo_busy_def demo_backlog_def
  demo_signalled_def demo_exited_def

lemmas writer_eval = processInput_def processOne_def pollRequestDone_def handleRequestDone_def
  tryToSendChunk_def getChunkSlice_def Add_def NextBatch_def batch_size_def Let_def UnprocessedCount_def
  chunk_read_def chunk_clear_def copy_slice_def reslice_def nil_above.simps word_sle_eq
  word_sless_alt split_beta sink_returns_def return_slice_def signal_done_def

lemma replicate_small:
  "replicate 5 x = [x, x, x, x, x]" "replicate 8 x = [x, x, x, x, x, x, x, x]"
  by (simp_all add: numeral_eq_Suc)

lemma demo_init: "run_init (Start demo_new) = Inr (demo_idle\<lparr>loop := Spawned\<rparr>)"
  by (simp add: demo_defs new_writer_def Start_def run_init_def apply_defaults_def Let_def
      NewInstanceRingBuffer_def make_chunk_def replicate_small)

lemma demo_input1: "processInput [Some 1, Some 2, Some 3, Some 4, Some 5] demo_idle = Inr demo_busy"
  by (simp add: demo_defs writer_eval)

lemma demo_input2: "processInput [Some 6, Some 7, Some 8, Some 9, Some 10] demo_busy = Inr demo_backlog"
  by (simp add: demo_defs writer_eval)

lemma reachable_demo_idle: "reachable demo_idle"
proof -
  have "reachable demo_new" unfolding demo_new_def by (rule r_new)
  then have "reachable (Start demo_new)"
    by (rule r_step) (rule st_start, simp add: demo_new_def new_writer_def)
  then have "reachable (demo_idle\<lparr>loop := Spawned, loop := Running\<rparr>)"
    by (rule r_step) (rule st_init [OF _ demo_init], simp add: Start_def)
  then show ?thesis by (simp add: demo_idle_def)
qed

lemma reachable_demo_busy: "reachable demo_busy"
proof -
  have "loop demo_idle = Running \<or> loop demo_idle = Draining" by (simp add: demo_idle_def)
  from processInput_accepts [OF reachable_demo_idle this, of "[Some 1, Some 2, Some 3, Some 4, Some 5]"]
  obtain w' where "processInput [Some 1, Some 2, Some 3, Some 4, Some 5] demo_idle = Inr w'" "reachable w'"
    by blast
  then show ?thesis unfolding demo_input1 by simp
qed

lemma reachable_demo_backlog: "reachable demo_backlog"
proof -
  have "loop demo_busy = Running \<or> loop demo_busy = Draining" by (simp add: demo_defs)
  from processInput_accepts [OF reachable_demo_busy this, of "[Some 6, Some 7, Some 8, Some 9, Some 10]"]
  obtain w' where "processInput [Some 6, Some 7, Some 8, Some 9, Some 10] demo_busy = Inr w'" "reachable w'"
    by blast
  then show ?thesis unfolding demo_input2 by simp
qed

lemma demo_backlog_task:
  "tasks demo_backlog = [demo_batch]" "task_phase demo_batch = InSink"
  by (simp_all add: demo_defs)

lemma demo_sink_fails:
  "sink_returns 0 True demo_backlog
     = demo_backlog\<lparr>TotalFailedToSend := 5, tasks := [demo_batch\<lparr>task_phase := SinkReturned\<rparr>]\<rparr>"
  by (simp add: demo_defs sink_returns_def)

lemma demo_slice_back:
  "return_slice 0 (sink_returns 0 True demo_backlog)
     = Inr (demo_backlog\<lparr>TotalFailedToSend := 5,
          chunkSliceCache := [\<lparr>arr = [Some 1, Some 2, Some 3, Some 4, Some 5], len = 5\<rparr>],
          tasks := [demo_batch\<lparr>task_phase := SliceReturned\<rparr>]\<rparr>)"
  by (simp add: demo_defs sink_returns_def return_slice_def)

lemma demo_signal:
  "signal_done 0 (demo_backlog\<lparr>TotalFailedToSend := 5,
          chunkSliceCache := [\<lparr>arr = [Some 1, Some 2, Some 3, Some 4, Some 5], len = 5\<rparr>],
          tasks := [demo_batch\<lparr>task_phase := SliceReturned\<rparr>]\<rparr>) = Inr demo_signalled"
  by (simp add: demo_defs signal_done_def)

lemma reachable_demo_signalled: "reachable demo_signalled"
proof -
  have "reachable (sink_returns 0 True demo_backlog)"
    by (rule r_step [OF reachable_demo_backlog]) (rule st_sink, simp_all add: demo_backlog_task)
  then have "reachable (demo_backlog\<lparr>TotalFailedToSend := 5,
          chunkSliceCache := [\<lparr>arr = [Some 1, Some 2, Some 3, Some 4, Some 5], len = 5\<rparr>],
          tasks := [demo_batch\<lparr>task_phase := SliceReturned\<rparr>]\<rparr>)"
    by (rule r_step) (rule st_slice [OF _ _ demo_slice_back], simp_all add: demo_sink_fails)
  then show ?thesis
    by (rule r_step) (rule st_signal [OF _ _ demo_signal], simp_all)
qed

lemma reachable_demo_exited: "reachable demo_exited"
proof -
  have "reachable (demo_idle\<lparr>loop := Draining\<rparr>)"
    by (rule r_step [OF reachable_demo_idle]) (rule st_cancel, simp add: demo_idle_def)
  moreover have "tryToSendChunk (demo_idle\<lparr>loop := Draining\<rparr>) = Inr (demo_idle\<lparr>loop := Draining\<rparr>)"
    by (simp add: demo_defs writer_eval)
  ultimately have "reachable (demo_idle\<lparr>loop := Draining, loop := Waiting\<rparr>)"
    by (rule r_step [OF _ st_drained [rotated]]) simp
  then have "reachable (demo_idle\<lparr>loop := Draining, loop := Waiting, loop := Exited, shutdownFlag := Some Closed\<rparr>)"
    by (rule r_step) (rule st_exit, simp_all add: demo_idle_def word_sless_alt)
  then show ?thesis by (simp add: demo_exited_def)
qed


section \<open>The writer: the claims\<close>

lemma reachable_started: "reachable w \<Longrightarrow> started w \<Longrightarrow> writer_inv w"
  by (rule system_inv_started [OF reachable_inv])

lemma reachable_buff: "reachable w \<Longrightarrow> buff w = Some b \<Longrightarrow> writer_inv w"
  using reachable_inv [of w] by (cases "loop w") (auto simp: system_inv_def fresh_def)

text \<open>
  C1. In every state the system reaches once the loop runs, under any interleaving of
  input, completions and the moves of the send goroutines, the number of send
  goroutines inside the sink is at most \<open>requestsActive\<close>, which is at most
  \<open>MaxRequests\<close>; \<open>requestsActive\<close> counts exactly the goroutines that were launched and
  whose completion has not been handled yet (each one once); and \<open>tryToSendChunk\<close>
  returns and either launches nothing and leaves \<open>requestsActive\<close> alone, or finds
  \<open>requestsActive < MaxRequests\<close>, launches one goroutine and adds one.
\<close>

theorem requestsActive_within_MaxRequests:
  assumes r: "reachable w" and s: "started w"
  shows "int (length (filter in_sink (tasks w))) \<le> sint (requestsActive w)
       \<and> sint (requestsActive w) \<le> sint (MaxRequests w)
       \<and> sint (requestsActive w) = int (length (tasks w)) + int (length (requestDoneCh w))
       \<and> (\<exists>w'. tryToSendChunk w = Inr w'
              \<and> (tasks w' = tasks w \<and> requestsActive w' = requestsActive w
                 \<or> requestsActive w <s MaxRequests w \<and> requestsActive w' = requestsActive w + 1
                    \<and> (\<exists>t. tasks w' = tasks w @ [t] \<and> in_sink t)))"
proof -
  have inv: "writer_inv w" by (rule reachable_started [OF r s])
  note d = writer_invD [OF inv]
  from d(8) obtain b where b: "buff w = Some b" ..
  note bd = writer_inv_buffD [OF inv b]
  have 1: "int (length (filter in_sink (tasks w))) \<le> sint (requestsActive w)"
    using d(3) length_filter_le [of in_sink "tasks w"] by linarith
  have 2: "\<exists>w'. tryToSendChunk w = Inr w'
              \<and> (tasks w' = tasks w \<and> requestsActive w' = requestsActive w
                 \<or> requestsActive w <s MaxRequests w \<and> requestsActive w' = requestsActive w + 1
                    \<and> (\<exists>t. tasks w' = tasks w @ [t] \<and> in_sink t))"
  proof (cases "MaxRequests w \<le>s requestsActive w")
    case True
    from tryToSendChunk_limit [OF b True] show ?thesis by simp
  next
    case room: False
    show ?thesis
    proof (cases "unprocessed b = 0")
      case True
      from tryToSendChunk_empty [OF b bd(1) room True] show ?thesis by simp
    next
      case False
      then have pos: "0 < unprocessed b" by simp
      from cache_nonempty [OF inv room] obtain sl rest where c: "chunkSliceCache w = sl # rest"
        by (cases "chunkSliceCache w") auto
      from tryToSendChunk_dispatch(1) [OF inv b room pos c refl] room show ?thesis
        by (simp add: in_sink_def word_sle_eq word_sless_alt)
    qed
  qed
  from 1 2 d(3,4) show ?thesis by blast
qed

theorem requestsActive_within_MaxRequests_witness:
  "started demo_backlog
   \<and> length (filter in_sink (tasks demo_backlog)) = 1
   \<and> sint (requestsActive demo_backlog) = 1 \<and> sint (MaxRequests demo_backlog) = 1
   \<and> sint (requestsActive demo_backlog) \<le> sint (MaxRequests demo_backlog)"
proof -
  have s: "started demo_backlog" by (simp add: demo_defs started_def)
  from requestsActive_within_MaxRequests [OF reachable_demo_backlog s] s show ?thesis
    by (simp add: demo_defs in_sink_def)
qed

text \<open>
  C8. In every reachable state whose ring buffer holds no unprocessed item,
  \<open>tryToSendChunk\<close> returns the state it was given: no counter changes, the buffer and
  the slice cache are as before and no send goroutine is launched.
\<close>

theorem tryToSendChunk_noop_on_empty_buffer:
  assumes "reachable w" and "buff w = Some b" and "UnprocessedCount b = 0"
  shows "tryToSendChunk w = Inr w"
proof -
  have inv: "writer_inv w" by (rule reachable_buff [OF assms(1,2)])
  note bd = writer_inv_buffD [OF inv assms(2)]
  have u: "unprocessed b = 0" using assms(3) by (simp add: UnprocessedCount_def)
  show ?thesis
  proof (cases "MaxRequests w \<le>s requestsActive w")
    case True
    from tryToSendChunk_limit [OF assms(2) True] u bd(3) show ?thesis
      by (simp add: UnprocessedCount_def)
  next
    case False
    from tryToSendChunk_empty [OF assms(2) bd(1) False u] show ?thesis .
  qed
qed

theorem tryToSendChunk_noop_on_empty_buffer_witness:
  "buff demo_busy = Some \<lparr>slots = [None, None, None, None, None, None, None, None], readIdx = 5, unprocessed = 0\<rparr>
   \<and> UnprocessedCount \<lparr>slots = [None, None, None, None, None, None, None, None :: nat option], readIdx = 5, unprocessed = 0\<rparr> = 0
   \<and> tryToSendChunk demo_busy = Inr demo_busy
   \<and> tryToSendChunk demo_idle = Inr demo_idle"
proof -
  have b: "buff demo_busy = Some \<lparr>slots = [None, None, None, None, None, None, None, None], readIdx = 5, unprocessed = 0\<rparr>"
    by (simp add: demo_defs)
  have b': "buff demo_idle = Some \<lparr>slots = [None, None, None, None, None, None, None, None], readIdx = 0, unprocessed = 0\<rparr>"
    by (simp add: demo_defs)
  have u: "UnprocessedCount \<lparr>slots = [None, None, None, None, None, None, None, None :: nat option], readIdx = 5, unprocessed = 0\<rparr> = 0"
    by (simp add: UnprocessedCount_def)
  have u': "UnprocessedCount \<lparr>slots = [None, None, None, None, None, None, None, None :: nat option], readIdx = 0, unprocessed = 0\<rparr> = 0"
    by (simp add: UnprocessedCount_def)
  from tryToSendChunk_noop_on_empty_buffer [OF reachable_demo_busy b u]
    tryToSendChunk_noop_on_empty_buffer [OF reachable_demo_idle b' u'] b u
  show ?thesis by simp
qed


lemma wstep_config:
  assumes "wstep w w'" "system_inv w"
  shows "(loop w = Spawned \<longrightarrow>
            loop w' = Running
          \<and> MaxBuffered w' = MaxBuffered (apply_defaults w)
          \<and> MaxRequests w' = MaxRequests (apply_defaults w)
          \<and> MaxBatchSize w' = MaxBatchSize (apply_defaults w))
       \<and> (loop w \<noteq> Spawned \<longrightarrow>
            MaxBuffered w' = MaxBuffered w \<and> MaxRequests w' = MaxRequests w
          \<and> MaxBatchSize w' = MaxBatchSize w)"
  using assms
proof (cases rule: wstep.cases)
  case st_start
  then show ?thesis by (simp add: Start_def)
next
  case (st_init v)
  then have f: "fresh w" using assms(2) by (simp add: system_inv_def)
  from run_init_inv(6-8) [OF f st_init(3)] st_init(1,2) show ?thesis by simp
next
  case (st_receive n)
  then show ?thesis by auto
next
  case (st_instance inst)
  then have inv: "writer_inv w" using assms(2) by (auto simp: system_inv_def)
  from processOne_inv [OF inv, of inst] st_instance show ?thesis by auto
next
  case (st_done c rest)
  then have inv: "writer_inv w" using assms(2) by (auto simp: system_inv_def)
  from handleRequestDone_inv [OF inv st_done(2)] st_done show ?thesis by auto
next
  case st_flush
  then have inv: "writer_inv w" using assms(2) by (auto simp: system_inv_def)
  from tryToSendChunk_inv [OF inv] st_flush show ?thesis by auto
next
  case st_cancel
  then show ?thesis by simp
next
  case (st_drained v)
  then have inv: "writer_inv w" using assms(2) by (auto simp: system_inv_def)
  from tryToSendChunk_inv [OF inv] st_drained show ?thesis by auto
next
  case st_exit
  then show ?thesis by simp
next
  case (st_sink i err)
  from system_inv_tasks [OF assms(2) st_sink(2)] st_sink(1) show ?thesis by auto
next
  case (st_slice i)
  from system_inv_tasks [OF assms(2) st_slice(1)] return_slice_inv [OF _ st_slice(1,2)] st_slice(3)
  show ?thesis by auto
next
  case (st_signal i)
  from system_inv_tasks [OF assms(2) st_signal(1)] signal_done_inv [OF _ st_signal(1,2)] st_signal(3)
  show ?thesis by auto
qed

text \<open>
  C9. The head of \<open>run\<close> replaces a configuration field that is zero by its default
  (\<open>MaxBuffered\<close> 10000, \<open>MaxRequests\<close> 10, \<open>MaxBatchSize\<close> 1000) and leaves any other
  value as it is; the move of the system that enters the loop sets the three fields
  to these values, and no other move of the system changes them.
\<close>

theorem defaults_applied_and_config_fixed:
  "MaxBuffered (apply_defaults w) = (if MaxBuffered w = 0 then 10000 else MaxBuffered w)
   \<and> MaxRequests (apply_defaults w) = (if MaxRequests w = 0 then 10 else MaxRequests w)
   \<and> MaxBatchSize (apply_defaults w) = (if MaxBatchSize w = 0 then 1000 else MaxBatchSize w)
   \<and> (reachable w \<and> wstep w w' \<longrightarrow>
        (if loop w = Spawned
         then loop w' = Running
            \<and> MaxBuffered w' = (if MaxBuffered w = 0 then 10000 else MaxBuffered w)
            \<and> MaxRequests w' = (if MaxRequests w = 0 then 10 else MaxRequests w)
            \<and> MaxBatchSize w' = (if MaxBatchSize w = 0 then 1000 else MaxBatchSize w)
         else MaxBuffered w' = MaxBuffered w \<and> MaxRequests w' = MaxRequests w
            \<and> MaxBatchSize w' = MaxBatchSize w))"
proof -
  have d: "MaxBuffered (apply_defaults w) = (if MaxBuffered w = 0 then 10000 else MaxBuffered w)"
    "MaxRequests (apply_defaults w) = (if MaxRequests w = 0 then 10 else MaxRequests w)"
    "MaxBatchSize (apply_defaults w) = (if MaxBatchSize w = 0 then 1000 else MaxBatchSize w)"
    by (simp_all add: apply_defaults_config DefaultInstanceMaxBuffered_def
        DefaultInstanceMaxRequests_def DefaultInstanceMaxBatchSize_def)
  have "(if loop w = Spawned
         then loop w' = Running
            \<and> MaxBuffered w' = (if MaxBuffered w = 0 then 10000 else MaxBuffered w)
            \<and> MaxRequests w' = (if MaxRequests w = 0 then 10 else MaxRequests w)
            \<and> MaxBatchSize w' = (if MaxBatchSize w = 0 then 1000 else MaxBatchSize w)
         else MaxBuffered w' = MaxBuffered w \<and> MaxRequests w' = MaxRequests w
            \<and> MaxBatchSize w' = MaxBatchSize w)"
    if "reachable w" "wstep w w'"
    using wstep_config [OF that(2) reachable_inv [OF that(1)]] d by presburger
  with d show ?thesis by blast
qed

theorem defaults_applied_and_config_fixed_witness:
  "MaxBuffered (apply_defaults (new_writer None False 0 0 0 :: nat InstanceWriter)) = 10000
   \<and> MaxRequests (apply_defaults (new_writer None False 0 0 0 :: nat InstanceWriter)) = 10
   \<and> MaxBatchSize (apply_defaults (new_writer None False 0 0 0 :: nat InstanceWriter)) = 1000
   \<and> MaxBuffered (apply_defaults demo_new) = 8 \<and> MaxRequests (apply_defaults demo_new) = 1
   \<and> MaxBatchSize (apply_defaults demo_new) = 5
   \<and> wstep demo_idle (demo_idle\<lparr>loop := Draining\<rparr>)
   \<and> MaxBuffered (demo_idle\<lparr>loop := Draining\<rparr>) = 8"
proof -
  have s: "wstep demo_idle (demo_idle\<lparr>loop := Draining\<rparr>)"
    by (rule st_cancel) (simp add: demo_idle_def)
  from defaults_applied_and_config_fixed [of "new_writer None False 0 0 0 :: nat InstanceWriter"]
    defaults_applied_and_config_fixed [of demo_new]
    defaults_applied_and_config_fixed [of demo_idle "demo_idle\<lparr>loop := Draining\<rparr>"]
    reachable_demo_idle s
  show ?thesis by (simp add: new_writer_def demo_defs)
qed

text \<open>
  C5. \<open>WaitForShutdown\<close> on a writer on which \<open>Start\<close> has not been called panics at
  once. Once \<open>Start\<close> has been called it waits as long as the coordinating goroutine
  has not left \<open>run\<close>, and returns when that has happened; by then no send is
  outstanding.
\<close>

theorem WaitForShutdown_panics_before_Start_and_waits_after:
  assumes "reachable w"
  shows "(loop w = NotStarted \<longrightarrow>
            WaitForShutdown w = Inl (Panic ''should not wait for writer shutdown when not running'')
          \<and> WaitForShutdown (Start w) = Inl Blocked)
       \<and> (loop w \<noteq> NotStarted \<and> loop w \<noteq> Exited \<longrightarrow> WaitForShutdown w = Inl Blocked)
       \<and> (loop w = Exited \<longrightarrow>
            WaitForShutdown w = Inr () \<and> tasks w = [] \<and> requestDoneCh w = [] \<and> requestsActive w = 0)"
proof -
  note inv = reachable_inv [OF assms]
  have 1: "WaitForShutdown w = Inl (Panic ''should not wait for writer shutdown when not running'')
          \<and> WaitForShutdown (Start w) = Inl Blocked" if "loop w = NotStarted"
    using inv that by (simp add: system_inv_def WaitForShutdown_def Start_def)
  have 2: "WaitForShutdown w = Inl Blocked" if "loop w \<noteq> NotStarted \<and> loop w \<noteq> Exited"
    using inv that by (cases "loop w") (simp_all add: system_inv_def WaitForShutdown_def)
  have 3: "WaitForShutdown w = Inr () \<and> tasks w = [] \<and> requestDoneCh w = [] \<and> requestsActive w = 0"
    if e: "loop w = Exited"
  proof -
    from inv e have f: "shutdownFlag w = Some Closed" "writer_inv w" "tasks w = []" "requestDoneCh w = []"
      by (simp_all add: system_inv_def)
    from writer_invD(3) [OF f(2)] f(3,4) have "sint (requestsActive w) = 0" by simp
    then have "requestsActive w = 0" by (simp add: signed_eq_0_iff)
    with f show ?thesis by (simp add: WaitForShutdown_def)
  qed
  from 1 2 3 show ?thesis by blast
qed

theorem WaitForShutdown_panics_before_Start_and_waits_after_witness:
  "WaitForShutdown demo_new = Inl (Panic ''should not wait for writer shutdown when not running'')
   \<and> WaitForShutdown (Start demo_new) = Inl Blocked
   \<and> WaitForShutdown demo_backlog = Inl Blocked
   \<and> WaitForShutdown demo_exited = Inr ()"
proof -
  have "reachable demo_new" unfolding demo_new_def by (rule r_new)
  from WaitForShutdown_panics_before_Start_and_waits_after [OF this]
    WaitForShutdown_panics_before_Start_and_waits_after [OF reachable_demo_backlog]
    WaitForShutdown_panics_before_Start_and_waits_after [OF reachable_demo_exited]
  show ?thesis by (simp add: demo_defs new_writer_def)
qed


lemma nil_above_take: "take sz (arr (nil_above sz sl)) = take sz (arr sl)"
  by (rule nth_equalityI) (simp_all add: nil_above_nth)

text \<open>
  C10. \<open>getChunkSlice(size)\<close> with \<open>size\<close> within the capacity of the slice it takes
  from the cache returns that slice with length \<open>size\<close>: the elements below \<open>size\<close>
  are as they were and the loop has set those from \<open>size\<close> up to the slice's former
  length to \<open>nil\<close>. In a reachable state the backing array of a cached slice holds
  \<open>nil\<close> from its length on, so that every element of the returned slice's backing
  array at an index from \<open>size\<close> on is \<open>nil\<close>.
\<close>

theorem getChunkSlice_length_and_nil_tail:
  assumes c: "chunkSliceCache w = sl # rest" and le: "sz \<le> length (arr sl)"
  shows "\<exists>s. getChunkSlice sz w = Inr (s, w\<lparr>chunkSliceCache := rest\<rparr>)
           \<and> len s = sz \<and> length (arr s) = length (arr sl)
           \<and> take sz (arr s) = take sz (arr sl)
           \<and> (\<forall>j. sz \<le> j \<and> j < len sl \<and> j < length (arr sl) \<longrightarrow> arr s ! j = None)
           \<and> (reachable w \<longrightarrow> set (drop sz (arr s)) \<subseteq> {None})"
proof -
  let ?s = "(nil_above sz sl)\<lparr>len := sz\<rparr>"
  have g: "getChunkSlice sz w = Inr (?s, w\<lparr>chunkSliceCache := rest\<rparr>)"
    using c reslice_nil_above [OF le] by (simp add: getChunkSlice_def)
  have n: "\<forall>j. sz \<le> j \<and> j < len sl \<and> j < length (arr sl) \<longrightarrow> arr ?s ! j = None"
    by (simp add: nil_above_nth)
  have t: "set (drop sz (arr ?s)) \<subseteq> {None}" if r: "reachable w"
  proof -
    have "writer_inv w"
      using reachable_inv [OF r] c by (cases "loop w") (auto simp: system_inv_def fresh_def)
    from writer_invD(6) [OF this, of sl] c have "chunk_ok sl" by simp
    from chunk_ok_getChunk [OF this le] show ?thesis by (simp add: chunk_ok_def)
  qed
  from g n t show ?thesis by (auto simp: nil_above_take)
qed

theorem getChunkSlice_length_and_nil_tail_witness:
  "chunkSliceCache demo_signalled = [\<lparr>arr = [Some 1, Some 2, Some 3, Some 4, Some 5], len = 5\<rparr>]
   \<and> getChunkSlice 2 demo_signalled
       = Inr (\<lparr>arr = [Some 1, Some 2, None, None, None], len = 2\<rparr>, demo_signalled\<lparr>chunkSliceCache := []\<rparr>)"
proof -
  have c: "chunkSliceCache demo_signalled = [\<lparr>arr = [Some 1, Some 2, Some 3, Some 4, Some 5], len = 5\<rparr>]"
    by (simp add: demo_defs)
  have le: "2 \<le> length (arr \<lparr>arr = [Some 1, Some 2, Some 3, Some 4, Some (5::nat)], len = 5\<rparr>)"
    by simp
  have e: "getChunkSlice 2 demo_signalled
       = Inr (\<lparr>arr = [Some 1, Some 2, None, None, None], len = 2\<rparr>, demo_signalled\<lparr>chunkSliceCache := []\<rparr>)"
    by (simp add: demo_defs getChunkSlice_def reslice_def nil_above.simps)
  from getChunkSlice_length_and_nil_tail [OF c le] reachable_demo_signalled c e
  show ?thesis by simp
qed




text \<open>
  Handling a completion while a backlog is recorded launches a send with the oldest
  unprocessed items.
\<close>

lemma completion_dispatches:
  assumes inv: "writer_inv w" and b: "buff w = Some b" and ch: "requestDoneCh w = n # rest"
    and wt: "0 <s totalWaiting w"
  shows "\<exists>w' t b'. handleRequestDone n (w\<lparr>requestDoneCh := rest\<rparr>) = Inr w'
           \<and> tasks w' = tasks w @ [t] \<and> in_sink t
           \<and> elems (task_chunk t) = take (batch_size (sint (MaxBatchSize w)) b) (pending b)
           \<and> 0 < batch_size (sint (MaxBatchSize w)) b
           \<and> elems (task_chunk t) \<noteq> []
           \<and> task_count t = of_nat (length (elems (task_chunk t)))
           \<and> requestsActive w' = requestsActive w
           \<and> TotalInFlight w' = TotalInFlight w - n + task_count t
           \<and> buff w' = Some b'
           \<and> pending b' = drop (batch_size (sint (MaxBatchSize w)) b) (pending b)
           \<and> totalWaiting w' = of_nat (UnprocessedCount b')
           \<and> requestDoneCh w' = rest"
proof -
  let ?w1 = "w\<lparr>requestDoneCh := rest, requestsActive := requestsActive w - 1,
               TotalInFlight := TotalInFlight w - n\<rparr>"
  let ?m = "sint (MaxBatchSize w)"
  let ?k = "batch_size ?m b"
  note d = writer_invD [OF inv]
  note bd = writer_inv_buffD [OF inv b]
  note ct = completion_taken [OF inv ch]
  have pos: "0 < unprocessed b" by (rule waiting_unprocessed [OF inv b wt])
  have room: "\<not> MaxRequests ?w1 \<le>s requestsActive ?w1"
    using ct(2) d(4) by (simp add: word_sle_eq)
  from cache_nonempty [OF ct(1) room] obtain sl rs where c: "chunkSliceCache ?w1 = sl # rs"
    by (cases "chunkSliceCache ?w1") auto
  have b1: "buff ?w1 = Some b" using b by simp
  have k: "?k = batch_size (sint (MaxBatchSize ?w1)) b" by simp
  note dp = tryToSendChunk_dispatch [OF ct(1) b1 room pos c k]
  let ?t = "\<lparr>task_chunk = copy_slice ((nil_above ?k sl)\<lparr>len := ?k\<rparr>) (take ?k (pending b)),
             task_count = of_nat ?k, task_phase = InSink\<rparr>"
  let ?b' = "chunk_clear (fst (NextBatch ?m b)) (snd (NextBatch ?m b))"
  have sl: "int (length (arr sl)) = ?m" "chunk_ok sl"
    using writer_invD(6) [OF ct(1), of sl] c by simp_all
  have kle: "?k \<le> length (arr sl)" using sl(1) d(2) batch_size_le(1) [of ?m b] by linarith
  have ok1: "chunk_ok ((nil_above ?k sl)\<lparr>len := ?k\<rparr>)" by (rule chunk_ok_getChunk [OF sl(2) kle])
  have lk: "length (take ?k (pending b)) = ?k"
    using batch_size_le(2) [of ?m b] by (simp add: length_pending)
  then have lt: "length (take ?k (pending b)) = len ((nil_above ?k sl)\<lparr>len := ?k\<rparr>)" by simp
  have el: "elems (task_chunk ?t) = take ?k (pending b)"
    using chunk_ok_copy(4) [OF ok1 lt] by simp
  have ne: "take ?k (pending b) \<noteq> []" using dp(2) lk by auto
  have pb: "pending ?b' = drop ?k (pending b)"
    using chunk_clear_pending [OF bd(1), of ?m] NextBatch_view(2) [OF bd(1), of ?m] by simp
  have un: "UnprocessedCount ?b' = unprocessed b - ?k"
    using NextBatch_view(3) [OF bd(1), of ?m] by (simp add: UnprocessedCount_def)
  have "handleRequestDone n (w\<lparr>requestDoneCh := rest\<rparr>) = tryToSendChunk ?w1"
    using wt by (simp add: handleRequestDone_def Let_def)
  with dp el ne lk pb un show ?thesis
    by (simp add: in_sink_def)
qed

text \<open>
  C4. Handling the completion of a send of \<open>n\<close> records takes one from
  \<open>requestsActive\<close> and \<open>n\<close> from \<open>TotalInFlight\<close>. When no backlog is recorded
  (\<open>totalWaiting \<le> 0\<close>) that is all. When a backlog is recorded (\<open>totalWaiting > 0\<close>),
  \<open>handleRequestDone\<close> dispatches at once: it launches a send goroutine with the
  oldest unprocessed items, as many as \<open>NextBatch\<close> hands out and at least one; they
  leave the buffer, \<open>requestsActive\<close> is back at its old value and \<open>totalWaiting\<close>
  records what is still unprocessed. A dispatch that is given up because of the
  \<open>MaxRequests\<close> limit while items are unprocessed records a backlog; the record stays
  over every move of the system that launches no send; so when \<open>tryToSendChunk\<close> in
  the main loop has given up at the limit, the next completion that is handled, after
  whatever moves that launch no send, launches one, whether or not input has arrived
  in between.
\<close>

theorem handleRequestDone_dispatches_backlog:
  assumes r: "reachable w" and b: "buff w = Some b"
  shows "(MaxRequests w \<le>s requestsActive w \<and> 0 < UnprocessedCount b \<longrightarrow>
            (\<exists>w1. tryToSendChunk w = Inr w1 \<and> 0 <s totalWaiting w1
                \<and> totalWaiting w1 = of_nat (UnprocessedCount b)
                \<and> tasks w1 = tasks w \<and> buff w1 = buff w \<and> requestDoneCh w1 = requestDoneCh w
                \<and> (loop w = Running \<longrightarrow> reachable w1)))
       \<and> (\<forall>w2. 0 <s totalWaiting w \<and> quiet w w2 \<longrightarrow> reachable w2 \<and> 0 <s totalWaiting w2)
       \<and> (\<forall>n rest. requestDoneCh w = n # rest \<longrightarrow>
            sint (requestsActive w - 1) = sint (requestsActive w) - 1
          \<and> (\<not> 0 <s totalWaiting w \<longrightarrow>
                handleRequestDone n (w\<lparr>requestDoneCh := rest\<rparr>)
                  = Inr (w\<lparr>requestDoneCh := rest, requestsActive := requestsActive w - 1,
                          TotalInFlight := TotalInFlight w - n\<rparr>))
          \<and> (0 <s totalWaiting w \<longrightarrow>
                (\<exists>w' t b'. handleRequestDone n (w\<lparr>requestDoneCh := rest\<rparr>) = Inr w'
                   \<and> tasks w' = tasks w @ [t] \<and> in_sink t
                   \<and> elems (task_chunk t) = take (batch_size (sint (MaxBatchSize w)) b) (pending b)
                   \<and> 0 < batch_size (sint (MaxBatchSize w)) b
                   \<and> elems (task_chunk t) \<noteq> []
                   \<and> task_count t = of_nat (length (elems (task_chunk t)))
                   \<and> requestsActive w' = requestsActive w
                   \<and> TotalInFlight w' = TotalInFlight w - n + task_count t
                   \<and> buff w' = Some b'
                   \<and> pending b' = drop (batch_size (sint (MaxBatchSize w)) b) (pending b)
                   \<and> totalWaiting w' = of_nat (UnprocessedCount b')
                   \<and> requestDoneCh w' = rest)))
       \<and> (loop w = Running \<and> MaxRequests w \<le>s requestsActive w \<and> 0 < UnprocessedCount b \<longrightarrow>
            (\<forall>w1 w2 n rest. tryToSendChunk w = Inr w1 \<and> quiet w1 w2 \<and> requestDoneCh w2 = n # rest \<longrightarrow>
               (\<exists>w' t b2. handleRequestDone n (w2\<lparr>requestDoneCh := rest\<rparr>) = Inr w'
                   \<and> buff w2 = Some b2
                   \<and> tasks w' = tasks w2 @ [t] \<and> in_sink t
                   \<and> elems (task_chunk t) = take (batch_size (sint (MaxBatchSize w2)) b2) (pending b2)
                   \<and> elems (task_chunk t) \<noteq> []
                   \<and> requestsActive w' = requestsActive w2)))"
proof -
  have inv: "writer_inv w" by (rule reachable_buff [OF r b])
  have A: "\<exists>w1. tryToSendChunk w = Inr w1 \<and> 0 <s totalWaiting w1
                \<and> totalWaiting w1 = of_nat (UnprocessedCount b)
                \<and> tasks w1 = tasks w \<and> buff w1 = buff w \<and> requestDoneCh w1 = requestDoneCh w
                \<and> (loop w = Running \<longrightarrow> reachable w1)"
    if "MaxRequests w \<le>s requestsActive w \<and> 0 < UnprocessedCount b"
  proof -
    from that have lim: "MaxRequests w \<le>s requestsActive w" and pos: "0 < unprocessed b"
      by (simp_all add: UnprocessedCount_def)
    let ?w1 = "w\<lparr>totalWaiting := of_nat (UnprocessedCount b)\<rparr>"
    have t: "tryToSendChunk w = Inr ?w1" by (rule tryToSendChunk_limit [OF b lim])
    have "0 <s (of_nat (UnprocessedCount b) :: 64 word)"
      using recorded_positive [OF inv b pos] by (simp add: UnprocessedCount_def)
    moreover have "reachable ?w1" if "loop w = Running"
      by (rule r_step [OF r st_flush [OF that t]])
    ultimately show ?thesis using t by simp
  qed
  have L: "reachable w2 \<and> 0 <s totalWaiting w2" if "0 <s totalWaiting w \<and> quiet w w2" for w2
    using quiet_keeps_waiting [OF _ r, of w2] that by blast
  have B: "sint (requestsActive w - 1) = sint (requestsActive w) - 1
          \<and> (\<not> 0 <s totalWaiting w \<longrightarrow>
                handleRequestDone n (w\<lparr>requestDoneCh := rest\<rparr>)
                  = Inr (w\<lparr>requestDoneCh := rest, requestsActive := requestsActive w - 1,
                          TotalInFlight := TotalInFlight w - n\<rparr>))
          \<and> (0 <s totalWaiting w \<longrightarrow>
                (\<exists>w' t b'. handleRequestDone n (w\<lparr>requestDoneCh := rest\<rparr>) = Inr w'
                   \<and> tasks w' = tasks w @ [t] \<and> in_sink t
                   \<and> elems (task_chunk t) = take (batch_size (sint (MaxBatchSize w)) b) (pending b)
                   \<and> 0 < batch_size (sint (MaxBatchSize w)) b
                   \<and> elems (task_chunk t) \<noteq> []
                   \<and> task_count t = of_nat (length (elems (task_chunk t)))
                   \<and> requestsActive w' = requestsActive w
                   \<and> TotalInFlight w' = TotalInFlight w - n + task_count t
                   \<and> buff w' = Some b'
                   \<and> pending b' = drop (batch_size (sint (MaxBatchSize w)) b) (pending b)
                   \<and> totalWaiting w' = of_nat (UnprocessedCount b')
                   \<and> requestDoneCh w' = rest))"
    if ch: "requestDoneCh w = n # rest" for n rest
  proof -
    have "handleRequestDone n (w\<lparr>requestDoneCh := rest\<rparr>)
                  = Inr (w\<lparr>requestDoneCh := rest, requestsActive := requestsActive w - 1,
                          TotalInFlight := TotalInFlight w - n\<rparr>)"
      if "\<not> 0 <s totalWaiting w"
      using that by (simp add: handleRequestDone_def Let_def)
    with completion_taken(2) [OF inv ch] completion_dispatches [OF inv b ch] show ?thesis
      by blast
  qed
  have E: "\<exists>w' t b2. handleRequestDone n (w2\<lparr>requestDoneCh := rest\<rparr>) = Inr w'
                   \<and> buff w2 = Some b2
                   \<and> tasks w' = tasks w2 @ [t] \<and> in_sink t
                   \<and> elems (task_chunk t) = take (batch_size (sint (MaxBatchSize w2)) b2) (pending b2)
                   \<and> elems (task_chunk t) \<noteq> []
                   \<and> requestsActive w' = requestsActive w2"
    if lim: "loop w = Running \<and> MaxRequests w \<le>s requestsActive w \<and> 0 < UnprocessedCount b"
      and path: "tryToSendChunk w = Inr w1 \<and> quiet w1 w2 \<and> requestDoneCh w2 = n # rest"
    for w1 w2 n rest
  proof -
    from A lim path have r1: "reachable w1" and wt1: "0 <s totalWaiting w1" by auto
    from quiet_keeps_waiting [OF _ r1 wt1] path
    have r2: "reachable w2" and wt2: "0 <s totalWaiting w2" by blast+
    have "\<not> fresh w2" using wt2 by (auto simp: fresh_def word_sless_alt)
    then have inv2: "writer_inv w2"
      using reachable_inv [OF r2] by (cases "loop w2") (simp_all add: system_inv_def)
    from writer_invD(8) [OF inv2] obtain b2 where b2: "buff w2 = Some b2" ..
    from path have ch2: "requestDoneCh w2 = n # rest" by simp
    from completion_dispatches [OF inv2 b2 ch2 wt2] b2 show ?thesis by blast
  qed
  from A L B E show ?thesis by blast
qed

lemma quiet_demo: "quiet demo_backlog demo_signalled"
proof -
  let ?w1 = "sink_returns 0 True demo_backlog"
  let ?w2 = "demo_backlog\<lparr>TotalFailedToSend := 5,
          chunkSliceCache := [\<lparr>arr = [Some 1, Some 2, Some 3, Some 4, Some 5], len = 5\<rparr>],
          tasks := [demo_batch\<lparr>task_phase := SliceReturned\<rparr>]\<rparr>"
  have "quiet demo_backlog ?w1"
    by (rule q_move [OF q_here]) (rule st_sink, simp_all add: demo_backlog_task)
  then have "quiet demo_backlog ?w2"
    by (rule q_move) (rule st_slice [OF _ _ demo_slice_back], simp_all add: demo_sink_fails)
  then show ?thesis
    by (rule q_move) (rule st_signal [OF _ _ demo_signal], simp_all add: demo_signalled_def)
qed

theorem handleRequestDone_dispatches_backlog_witness:
  "loop demo_backlog = Running \<and> MaxRequests demo_backlog \<le>s requestsActive demo_backlog
   \<and> tryToSendChunk demo_backlog = Inr demo_backlog \<and> 0 <s totalWaiting demo_backlog
   \<and> quiet demo_backlog demo_signalled
   \<and> requestDoneCh demo_signalled = [5] \<and> 0 <s totalWaiting demo_signalled
   \<and> (\<exists>w' t. handleRequestDone 5 (demo_signalled\<lparr>requestDoneCh := []\<rparr>) = Inr w'
         \<and> tasks w' = [t]
         \<and> elems (task_chunk t) = [Some 6, Some 7, Some 8]
         \<and> requestsActive w' = 1 \<and> totalWaiting w' = 2)"
proof -
  let ?b = "\<lparr>slots = [Some 9, Some 10, None, None, None, Some 6, Some 7, Some (8::nat)],
             readIdx = 5, unprocessed = 5\<rparr>"
  have b: "buff demo_signalled = Some ?b" "buff demo_backlog = Some ?b" by (simp_all add: demo_defs)
  have c: "requestDoneCh demo_signalled = [5]" "0 <s totalWaiting demo_signalled"
    "tasks demo_signalled = []" "requestsActive demo_signalled = 1"
    "sint (MaxBatchSize demo_signalled) = 5" "0 <s totalWaiting demo_backlog"
    by (simp_all add: demo_defs word_sless_alt)
  have l: "loop demo_backlog = Running" "MaxRequests demo_backlog \<le>s requestsActive demo_backlog"
    "0 < UnprocessedCount ?b"
    by (simp_all add: demo_defs word_sle_eq UnprocessedCount_def)
  have t: "tryToSendChunk demo_backlog = Inr demo_backlog"
    by (simp add: demo_defs tryToSendChunk_def word_sle_eq UnprocessedCount_def)
  have p: "pending ?b = [Some 6, Some 7, Some 8, Some 9, Some 10]"
    by (simp add: pending_def upt_rec)
  have k: "batch_size 5 ?b = 3" by (simp add: batch_size_def)
  note th = handleRequestDone_dispatches_backlog [OF reachable_demo_backlog b(2)]
  from th l t quiet_demo c(1)
  obtain w' t b2 where w': "handleRequestDone 5 (demo_signalled\<lparr>requestDoneCh := []\<rparr>) = Inr w'"
    "buff demo_signalled = Some b2" "tasks w' = tasks demo_signalled @ [t]"
    "elems (task_chunk t) = take (batch_size (sint (MaxBatchSize demo_signalled)) b2) (pending b2)"
    "requestsActive w' = requestsActive demo_signalled"
    by blast
  from w'(2) b(1) have b2: "b2 = ?b" by simp
  note th2 = handleRequestDone_dispatches_backlog [OF reachable_demo_signalled b(1)]
  from th2 c(1,2) obtain w'' t' b' where w'': "handleRequestDone 5 (demo_signalled\<lparr>requestDoneCh := []\<rparr>) = Inr w''"
    "pending b' = drop (batch_size (sint (MaxBatchSize demo_signalled)) ?b) (pending ?b)"
    "totalWaiting w'' = of_nat (UnprocessedCount b')"
    by blast
  from w''(1) w'(1) have same: "w'' = w'" by simp
  have "length (pending b') = 2" unfolding w''(2) c(5) k p by simp
  then have "UnprocessedCount b' = 2" by (simp add: length_pending UnprocessedCount_def)
  then have tw: "totalWaiting w' = 2" using w''(3) same by simp
  have "elems (task_chunk t) = [Some 6, Some 7, Some 8]"
    using w'(4) unfolding b2 c(5) k p by simp
  with w'(1,3,5) tw c(3,4)
  have "\<exists>w' t. handleRequestDone 5 (demo_signalled\<lparr>requestDoneCh := []\<rparr>) = Inr w'
         \<and> tasks w' = [t]
         \<and> elems (task_chunk t) = [Some 6, Some 7, Some 8]
         \<and> requestsActive w' = 1 \<and> totalWaiting w' = 2"
    by (intro exI [of _ w'] exI [of _ t]) simp
  with l(1,2) t c(1,2,6) quiet_demo show ?thesis by blast
qed

end
